theory Spec2Isabelle
  imports Main "HOL-Library.Char_ord" "HOL-Library.List_Lexorder" "HOL-Library.Multiset"
begin

section \<open>Go strings and the standard-library functions the package calls\<close>

text \<open>
  A Go \<^verbatim>\<open>string\<close> is a sequence of bytes; \<^typ>\<open>string\<close> (a list of 8-bit
  characters) is exactly that, and \<^term>\<open>of_char\<close> reads a byte as a number.
  \<^verbatim>\<open>strings.Compare\<close> is the lexicographic order on bytes, which is the order
  \<open>(\<le>)\<close> on \<^typ>\<open>string\<close> here.  A \<^verbatim>\<open>rune\<close> is a code point; the values that
  occur are between 0 and 0x10FFFF, so it is a natural number.
\<close>

type_synonym rune = nat

definition RuneError :: rune where
  "RuneError = 0xFFFD"

text \<open>
  \<^verbatim>\<open>unicode.IsSpace\<close>: in Latin-1 the eight code points of the switch, above it the
  table \<^verbatim>\<open>White_Space\<close>.
\<close>

definition IsSpace :: "rune \<Rightarrow> bool" where
  "IsSpace r =
     (if r \<le> 0xFF then r \<in> {0x09, 0x0A, 0x0B, 0x0C, 0x0D, 0x20, 0x85, 0xA0}
      else r = 0x1680 \<or> (0x2000 \<le> r \<and> r \<le> 0x200A) \<or> r = 0x2028 \<or> r = 0x2029
           \<or> r = 0x202F \<or> r = 0x205F \<or> r = 0x3000)"

text \<open>
  \<^verbatim>\<open>utf8.first\<close> with \<^verbatim>\<open>utf8.acceptRanges\<close> folded in: for a lead byte of a
  multi-byte sequence, the length of the sequence and the range accepted for its second
  byte.  \<open>None\<close> is the table's entry \<^verbatim>\<open>xx\<close> (an invalid lead byte).
\<close>

definition first :: "nat \<Rightarrow> (nat \<times> nat \<times> nat) option" where
  "first b =
     (if 0xC2 \<le> b \<and> b \<le> 0xDF then Some (2, 0x80, 0xBF)
      else if b = 0xE0 then Some (3, 0xA0, 0xBF)
      else if 0xE1 \<le> b \<and> b \<le> 0xEC then Some (3, 0x80, 0xBF)
      else if b = 0xED then Some (3, 0x80, 0x9F)
      else if b = 0xEE \<or> b = 0xEF then Some (3, 0x80, 0xBF)
      else if b = 0xF0 then Some (4, 0x90, 0xBF)
      else if 0xF1 \<le> b \<and> b \<le> 0xF3 then Some (4, 0x80, 0xBF)
      else if b = 0xF4 then Some (4, 0x80, 0x8F)
      else None)"

text \<open>
  \<^verbatim>\<open>utf8.DecodeRuneInString\<close>: the first code point of \<open>s\<close> and its width in bytes;
  \<open>(RuneError, 1)\<close> on an invalid encoding, \<open>(RuneError, 0)\<close> on the empty string.
  The masks are written as arithmetic: \<^verbatim>\<open>b & 0x1F\<close> is \<open>b mod 32\<close>, \<^verbatim>\<open>b & 0x0F\<close> is
  \<open>b mod 16\<close>, \<^verbatim>\<open>b & 0x07\<close> is \<open>b mod 8\<close>, \<^verbatim>\<open>b & 0x3F\<close> is \<open>b mod 64\<close>,
  \<^verbatim>\<open>x << 6\<close> is \<open>x * 64\<close>, and the \<^verbatim>\<open>|\<close> of disjoint bit fields is their sum.
\<close>

definition DecodeRuneInString :: "string \<Rightarrow> rune \<times> nat" where
  "DecodeRuneInString s =
     (case map of_char s of
        [] \<Rightarrow> (RuneError, 0)
      | s0 # t \<Rightarrow>
          if s0 < 0x80 then (s0, 1)
          else
            (case first s0 of
               None \<Rightarrow> (RuneError, 1)
             | Some (sz, lo, hi) \<Rightarrow>
                 if length s < sz then (RuneError, 1)
                 else
                   let s1 = t ! 0 in
                   if s1 < lo \<or> hi < s1 then (RuneError, 1)
                   else if sz \<le> 2 then ((s0 mod 32) * 64 + s1 mod 64, 2)
                   else
                     let s2 = t ! 1 in
                     if s2 < 0x80 \<or> 0xBF < s2 then (RuneError, 1)
                     else if sz \<le> 3 then
                       ((s0 mod 16) * 4096 + (s1 mod 64) * 64 + s2 mod 64, 3)
                     else
                       let s3 = t ! 2 in
                       if s3 < 0x80 \<or> 0xBF < s3 then (RuneError, 1)
                       else
                         ((s0 mod 8) * 262144 + (s1 mod 64) * 4096 + (s2 mod 64) * 64
                            + s3 mod 64, 4)))"

lemma DecodeRuneInString_size_pos: "s \<noteq> [] \<Longrightarrow> 0 < snd (DecodeRuneInString s)"
  by (cases s)
     (auto simp: DecodeRuneInString_def Let_def split: option.splits prod.splits)

text \<open>
  \<^verbatim>\<open>for i, r := range s\<close>: the code points of \<open>s\<close> from left to right, each with the
  bytes it was decoded from (an invalid byte is \<open>RuneError\<close>, one byte wide).
\<close>

function runes :: "string \<Rightarrow> (rune \<times> string) list" where
  "runes [] = []"
| "runes (c # cs) =
     (let size = snd (DecodeRuneInString (c # cs))
      in (fst (DecodeRuneInString (c # cs)), take size (c # cs)) # runes (drop size (c # cs)))"
  by pat_completeness auto
termination
proof (relation "measure length")
  show "wf (measure length)" by simp
next
  fix c :: char and cs :: string and x :: nat
  assume "x = snd (DecodeRuneInString (c # cs))"
  moreover have "0 < snd (DecodeRuneInString (c # cs))"
    by (rule DecodeRuneInString_size_pos) simp
  ultimately show "(drop x (c # cs), c # cs) \<in> measure length"
    by simp
qed

text \<open>
  \<^verbatim>\<open>strings.FieldsFunc\<close>: the maximal runs of code points that do not satisfy \<open>f\<close>.
  The loop keeps the start of the current field (\<^verbatim>\<open>start >= 0\<close>); here the state is
  the bytes of the current field, \<open>None\<close> when there is none (\<^verbatim>\<open>start < 0\<close>).
\<close>

fun FieldsFunc_loop :: "(rune \<Rightarrow> bool) \<Rightarrow> string option \<Rightarrow> (rune \<times> string) list \<Rightarrow> string list"
  where
  "FieldsFunc_loop f None [] = []"
| "FieldsFunc_loop f (Some cur) [] = [cur]"
| "FieldsFunc_loop f None ((r, bs) # rest) =
     (if f r then FieldsFunc_loop f None rest else FieldsFunc_loop f (Some bs) rest)"
| "FieldsFunc_loop f (Some cur) ((r, bs) # rest) =
     (if f r then cur # FieldsFunc_loop f None rest
      else FieldsFunc_loop f (Some (cur @ bs)) rest)"

definition FieldsFunc :: "string \<Rightarrow> (rune \<Rightarrow> bool) \<Rightarrow> string list" where
  "FieldsFunc s f = FieldsFunc_loop f None (runes s)"

text \<open>\<^verbatim>\<open>strings.Join\<close>.\<close>

fun Join :: "string list \<Rightarrow> string \<Rightarrow> string" where
  "Join [] sep = []"
| "Join [x] sep = x"
| "Join (x # y # ys) sep = x @ sep @ Join (y # ys) sep"

text \<open>
  \<^verbatim>\<open>html.EscapeString\<close>: a byte replacer for the five characters
  \<^verbatim>\<open>&\<close>, \<^verbatim>\<open>'\<close>, \<^verbatim>\<open><\<close>, \<^verbatim>\<open>>\<close> and the double quote (byte 0x22).
\<close>

definition escapeByte :: "char \<Rightarrow> string" where
  "escapeByte c =
     (if c = CHR ''&'' then ''&amp;''
      else if c = CHR 0x27 then ''&#39;''
      else if c = CHR ''<'' then ''&lt;''
      else if c = CHR ''>'' then ''&gt;''
      else if c = CHR 0x22 then ''&#34;''
      else [c])"

definition EscapeString :: "string \<Rightarrow> string" where
  "EscapeString s = concat (map escapeByte s)"

text \<open>
  \<^verbatim>\<open>utf8.RuneStart\<close>: the byte is not a continuation byte (\<^verbatim>\<open>b & 0xC0 != 0x80\<close>).
\<close>

definition RuneStart :: "nat \<Rightarrow> bool" where
  "RuneStart b = (b < 0x80 \<or> 0xC0 \<le> b)"

text \<open>
  The backward scan of \<^verbatim>\<open>utf8.DecodeLastRuneInString\<close>:
  \<^verbatim>\<open>for start--; start >= lim; start-- { if RuneStart(s[start]) { break } }\<close>,
  entered with \<open>start\<close> already decremented.
\<close>

function scanStart :: "string \<Rightarrow> int \<Rightarrow> int \<Rightarrow> int" where
  "scanStart s start lim =
     (if lim \<le> start then
        (if RuneStart (of_char (s ! nat start)) then start else scanStart s (start - 1) lim)
      else start)"
  by pat_completeness auto
termination
  by (relation "measure (\<lambda>(s, start, lim). nat (start - lim + 1))") auto

declare scanStart.simps [simp del]

text \<open>
  \<^verbatim>\<open>utf8.DecodeLastRuneInString\<close>: the last code point of \<open>s\<close> and its width.
  \<^verbatim>\<open>UTFMax\<close> is 4.
\<close>

definition DecodeLastRuneInString :: "string \<Rightarrow> rune \<times> nat" where
  "DecodeLastRuneInString s =
     (let end = int (length s) in
      if end = 0 then (RuneError, 0)
      else
        let r = of_char (s ! nat (end - 1)) in
        if r < 0x80 then (r, 1)
        else
          let lim = max (end - 4) 0;
              start0 = scanStart s (end - 2) lim;
              start = (if start0 < 0 then 0 else start0);
              (r', size) = DecodeRuneInString (drop (nat start) s)
          in if start + int size \<noteq> end then (RuneError, 1) else (r', size))"

lemma scanStart_upper: "scanStart s start lim \<le> start"
  by (induction s start lim rule: scanStart.induct)
     (subst scanStart.simps, auto)

lemma DecodeLastRuneInString_size_pos: "s \<noteq> [] \<Longrightarrow> 0 < snd (DecodeLastRuneInString s)"
proof -
  assume ne: "s \<noteq> []"
  define start0 where "start0 = scanStart s (int (length s) - 2) (max (int (length s) - 4) 0)"
  define start where "start = (if start0 < 0 then 0 else start0)"
  have "start0 \<le> int (length s) - 2"
    unfolding start0_def by (rule scanStart_upper)
  with ne have lt: "start < int (length s)"
    by (auto simp: start_def)
  show ?thesis
    using ne lt
    by (auto simp: DecodeLastRuneInString_def Let_def start_def start0_def
             split: prod.splits)
qed

text \<open>
  \<^verbatim>\<open>strings.indexFunc\<close>: the byte index of the first code point \<open>r\<close> with
  \<open>f r = truth\<close>, or \<open>-1\<close>.
\<close>

fun indexFunc_loop :: "(rune \<Rightarrow> bool) \<Rightarrow> bool \<Rightarrow> nat \<Rightarrow> (rune \<times> string) list \<Rightarrow> int" where
  "indexFunc_loop f truth i [] = - 1"
| "indexFunc_loop f truth i ((r, bs) # rest) =
     (if f r = truth then int i else indexFunc_loop f truth (i + length bs) rest)"

definition indexFunc :: "string \<Rightarrow> (rune \<Rightarrow> bool) \<Rightarrow> bool \<Rightarrow> int" where
  "indexFunc s f truth = indexFunc_loop f truth 0 (runes s)"

text \<open>
  \<^verbatim>\<open>strings.lastIndexFunc\<close>: the loop runs over the prefix \<^verbatim>\<open>s[0:i]\<close>, which is the
  argument here, and \<open>i\<close> is its length.
\<close>

function lastIndexFunc :: "string \<Rightarrow> (rune \<Rightarrow> bool) \<Rightarrow> bool \<Rightarrow> int" where
  "lastIndexFunc s f truth =
     (if s = [] then - 1
      else
        let i = length s - snd (DecodeLastRuneInString s) in
        if f (fst (DecodeLastRuneInString s)) = truth then int i
        else lastIndexFunc (take i s) f truth)"
  by pat_completeness auto
termination
proof (relation "measure (\<lambda>(s, f, truth). length s)")
  show "wf (measure (\<lambda>(s, f, truth). length s))" by simp
next
  fix s :: string and f :: "rune \<Rightarrow> bool" and truth :: bool and x :: nat
  assume ne: "s \<noteq> []" and x: "x = length s - snd (DecodeLastRuneInString s)"
  have "0 < snd (DecodeLastRuneInString s)"
    using ne by (rule DecodeLastRuneInString_size_pos)
  with ne x show "((take x s, f, truth), (s, f, truth)) \<in> measure (\<lambda>(s, f, truth). length s)"
    by simp
qed

declare lastIndexFunc.simps [simp del]

definition TrimLeftFunc :: "string \<Rightarrow> (rune \<Rightarrow> bool) \<Rightarrow> string" where
  "TrimLeftFunc s f =
     (let i = indexFunc s f False in if i = - 1 then [] else drop (nat i) s)"

definition TrimRightFunc :: "string \<Rightarrow> (rune \<Rightarrow> bool) \<Rightarrow> string" where
  "TrimRightFunc s f =
     (let i = lastIndexFunc s f False in
      if 0 \<le> i \<and> 0x80 \<le> (of_char (s ! nat i) :: nat)
      then take (nat i + snd (DecodeRuneInString (drop (nat i) s))) s
      else take (nat (i + 1)) s)"

definition TrimFunc :: "string \<Rightarrow> (rune \<Rightarrow> bool) \<Rightarrow> string" where
  "TrimFunc s f = TrimRightFunc (TrimLeftFunc s f) f"

text \<open>\<^verbatim>\<open>strings.asciiSpace\<close>.\<close>

definition asciiSpace :: "nat \<Rightarrow> bool" where
  "asciiSpace c = (c \<in> {0x09, 0x0A, 0x0B, 0x0C, 0x0D, 0x20})"

text \<open>
  \<^verbatim>\<open>strings.TrimSpace\<close>.  The second loop moves \<open>stop\<close> down from the end; its
  argument here is \<^verbatim>\<open>s[start:stop]\<close>.
\<close>

function TrimSpace_stop :: "string \<Rightarrow> string" where
  "TrimSpace_stop s =
     (if s = [] then []
      else
        let c = (of_char (last s) :: nat) in
        if 0x80 \<le> c then TrimRightFunc s IsSpace
        else if asciiSpace c then TrimSpace_stop (butlast s)
        else s)"
  by pat_completeness auto
termination
  by (relation "measure length") auto

declare TrimSpace_stop.simps [simp del]

text \<open>The first loop moves \<open>start\<close> up; its argument is \<^verbatim>\<open>s[start:]\<close>.\<close>

fun TrimSpace :: "string \<Rightarrow> string" where
  "TrimSpace [] = []"
| "TrimSpace (c # cs) =
     (if 0x80 \<le> (of_char c :: nat) then TrimFunc (c # cs) IsSpace
      else if asciiSpace (of_char c) then TrimSpace cs
      else TrimSpace_stop (c # cs))"

section \<open>The data model of \<^verbatim>\<open>html.go\<close>\<close>

text \<open>
  The package's current source is \<^verbatim>\<open>html.go\<close> with the entry point of
  \<^verbatim>\<open>render.go\<close>; \<^verbatim>\<open>nodes.go\<close> and the second half of \<^verbatim>\<open>render.go\<close> hold earlier
  revisions of the same types.  The functions below are those of \<^verbatim>\<open>html.go\<close>.

  An attribute value has the type \<^verbatim>\<open>any\<close>: \<^verbatim>\<open>nil\<close>, a \<^verbatim>\<open>string\<close>, a
  \<^verbatim>\<open>bool\<close>, or a value of some other dynamic type, of which only the name printed by
  \<^verbatim>\<open>%T\<close> matters.
\<close>

datatype any = AnyNil | AnyString string | AnyBool bool | AnyOther string

text \<open>
  \<^verbatim>\<open>type KV map[string]any\<close>.  The list is the map's entries in the order in which
  \<^verbatim>\<open>range\<close> happens to visit them; the keys of a map are pairwise different, which is
  the predicate \<open>distinct (map fst attrs)\<close>.
\<close>

type_synonym KV = "(string \<times> any) list"

text \<open>
  The error values.  The package makes three of them, with \<^verbatim>\<open>fmt.Errorf\<close>, in
  \<^verbatim>\<open>renderAttrs\<close>; the specification calls them \<open>EmptyAttributeKey\<close>,
  \<open>NilAttributeValue\<close> and \<open>InvalidAttributeType\<close>.  \<open>OtherError\<close> is an error
  value made elsewhere (by an \<^verbatim>\<open>io.Writer\<close>), known by its message.
\<close>

datatype error =
    EmptyAttributeKey
  | NilAttributeValue string
  | InvalidAttributeType string string
  | OtherError string

fun Error :: "error \<Rightarrow> string" where
  "Error EmptyAttributeKey = ''empty/whitespace attribute key not allowed.''"
| "Error (NilAttributeValue k) = ''attribute '' @ [CHR 0x27] @ k @ [CHR 0x27] @ '' has nil value''"
| "Error (InvalidAttributeType T k) =
     ''attribute value must be string or bool, got '' @ T @ '' for key '' @ [CHR 0x27] @ k
       @ [CHR 0x27]"
| "Error (OtherError msg) = msg"

text \<open>
  \<^verbatim>\<open>Node\<close> is the interface with the method \<^verbatim>\<open>Render() (string, error)\<close>; the
  package implements it twice, by \<^verbatim>\<open>Text\<close> and by \<^verbatim>\<open>*Element\<close>.  Nodes are not
  \<^verbatim>\<open>nil\<close> here.
\<close>

datatype Node = Text string | Elem Element
  and Element =
    Element (Tag: string) (IsVoid: bool) (Attrs: KV) (Children: "Node list")

section \<open>Rendering\<close>

text \<open>
  A Go result \<^verbatim>\<open>(string, error)\<close> is a pair whose second component is \<open>None\<close> for
  \<^verbatim>\<open>nil\<close>.

  \<^verbatim>\<open>func (me Text) Render() (string, error)\<close>.
\<close>

definition Text_Render :: "string \<Rightarrow> string \<times> error option" where
  "Text_Render s =
     (if s = [] then ([], None)
      else
        let startsWithSpace = IsSpace (of_char (s ! 0));
            endsWithSpace = (1 < length s \<and> IsSpace (of_char (s ! (length s - 1))));
            s1 = Join (FieldsFunc s IsSpace) '' '';
            s2 = (if startsWithSpace then '' '' @ s1 else s1);
            s3 = (if endsWithSpace then s2 @ '' '' else s2)
        in (EscapeString s3, None))"

text \<open>
  \<^verbatim>\<open>func (me Element) renderAttrs(builder *strings.Builder) error\<close>: the loop over the
  sorted slice.  The builder is passed in and returned; on an error it holds what was
  written before.
\<close>

fun renderAttrs_loop :: "string \<Rightarrow> KV \<Rightarrow> string \<times> error option" where
  "renderAttrs_loop builder [] = (builder, None)"
| "renderAttrs_loop builder ((key, val) # rest) =
     (let k = TrimSpace key in
      if k = [] then (builder, Some EmptyAttributeKey)
      else
        (case val of
           AnyNil \<Rightarrow> (builder, Some (NilAttributeValue k))
         | AnyString v \<Rightarrow>
             renderAttrs_loop
               (builder @ '' '' @ k @ ''='' @ [CHR 0x22] @ EscapeString v @ [CHR 0x22]) rest
         | AnyBool v \<Rightarrow>
             (if v then renderAttrs_loop (builder @ '' '' @ k) rest
              else renderAttrs_loop builder rest)
         | AnyOther T \<Rightarrow> (builder, Some (InvalidAttributeType T k))))"

text \<open>
  The entries are sorted with \<^verbatim>\<open>slices.SortFunc\<close> by \<^verbatim>\<open>strings.Compare\<close> on the
  keys as supplied.  The keys of a map are pairwise different, so the sorted slice is
  the same whatever the algorithm; \<^term>\<open>sort_key fst\<close> computes it.
\<close>

definition renderAttrs :: "string \<Rightarrow> KV \<Rightarrow> string \<times> error option" where
  "renderAttrs builder attrs = renderAttrs_loop builder (sort_key fst attrs)"

text \<open>
  \<^verbatim>\<open>func (me *Element) Render() (string, error)\<close> and
  \<^verbatim>\<open>func (me Element) renderChildren(builder *strings.Builder) error\<close>, with
  \<open>Node_Render\<close> for the call \<^verbatim>\<open>child.Render()\<close> through the interface.
\<close>

fun Node_Render :: "Node \<Rightarrow> string \<times> error option"
  and Element_Render :: "Element \<Rightarrow> string \<times> error option"
  and renderChildren :: "string \<Rightarrow> Node list \<Rightarrow> string \<times> error option"
  where
  "Node_Render (Text s) = Text_Render s"
| "Node_Render (Elem e) = Element_Render e"
| "Element_Render (Element tag isVoid attrs children) =
     (if tag = [] then
        (case renderChildren [] children of
           (builder, Some err) \<Rightarrow> ([], Some err)
         | (builder, None) \<Rightarrow> (builder, None))
      else
        (case renderAttrs (''<'' @ tag) attrs of
           (builder, Some err) \<Rightarrow> ([], Some err)
         | (builder, None) \<Rightarrow>
             if isVoid then (builder @ ''>'', None)
             else
               (case renderChildren (builder @ ''>'') children of
                  (builder', Some err) \<Rightarrow> ([], None)
                | (builder', None) \<Rightarrow> (builder' @ ''</'' @ tag @ ''>'', None))))"
| "renderChildren builder [] = (builder, None)"
| "renderChildren builder (child # rest) =
     (case Node_Render child of
        (s, Some err) \<Rightarrow> (builder, Some err)
      | (s, None) \<Rightarrow> renderChildren (builder @ s) rest)"

text \<open>
  \<^verbatim>\<open>func (me *Element) Add(children ...Node) Node\<close>.  The method changes the element
  behind the pointer and returns the pointer: the result is the element after the call
  and the node returned.
\<close>

fun Add :: "Element \<Rightarrow> Node list \<Rightarrow> Element \<times> Node" where
  "Add (Element tag isVoid attrs children) new =
     (let me = (if \<not> isVoid then Element tag isVoid attrs (children @ new)
                else Element tag isVoid attrs children)
      in (me, Elem me))"

text \<open>
  \<^verbatim>\<open>func newElement(tag string, attrs []KV, isVoid ...bool) *Element\<close> and the
  factories used below.
\<close>

definition newElement :: "string \<Rightarrow> KV list \<Rightarrow> bool list \<Rightarrow> Element" where
  "newElement tag attrs isVoid =
     Element tag (if isVoid \<noteq> [] then isVoid ! 0 else False)
       (if attrs \<noteq> [] then attrs ! 0 else []) []"

definition Empty :: "KV list \<Rightarrow> Element" where
  "Empty attrs = newElement [] attrs []"

definition Div :: "KV list \<Rightarrow> Element" where
  "Div attrs = newElement ''div'' attrs []"

definition P :: "KV list \<Rightarrow> Element" where
  "P attrs = newElement ''p'' attrs []"

definition Br :: "KV list \<Rightarrow> Element" where
  "Br attrs = newElement ''br'' attrs [True]"

text \<open>
  \<^verbatim>\<open>func Render(writer io.Writer, node Node) error\<close> of \<^verbatim>\<open>render.go\<close>.  An
  \<^verbatim>\<open>io.Writer\<close> is its state \<open>w\<close> and its method
  \<^verbatim>\<open>Write(p []byte) (n int, err error)\<close>, which returns the state after the call too.
  The result is the writer's state after the call and the error returned.
\<close>

type_synonym 'w Writer = "'w \<Rightarrow> string \<Rightarrow> 'w \<times> int \<times> error option"

definition Render :: "'w Writer \<Rightarrow> 'w \<Rightarrow> Node \<Rightarrow> 'w \<times> error option" where
  "Render Write w node =
     (case Node_Render node of
        (s, Some err) \<Rightarrow> (w, Some err)
      | (s, None) \<Rightarrow> (case Write w s of (w', n, err) \<Rightarrow> (w', err)))"

text \<open>
  Two writers: \<^verbatim>\<open>bytes.Buffer\<close>, whose \<^verbatim>\<open>Write\<close> appends and never fails, and the
  \<^verbatim>\<open>errorWriter\<close> of \<^verbatim>\<open>render_test.go\<close>, whose \<^verbatim>\<open>Write\<close> always fails.
\<close>

definition Buffer_Write :: "string Writer" where
  "Buffer_Write buf p = (buf @ p, int (length p), None)"

definition errorWriter_Write :: "unit Writer" where
  "errorWriter_Write w p = (w, 0, Some (OtherError ''write error''))"

section \<open>Vocabulary of the statements\<close>

text \<open>
  An attribute is valid when \<^verbatim>\<open>renderAttrs\<close> takes none of its three error returns
  for it: the trimmed key is not empty and the value is a string or a boolean.
\<close>

fun validAttr :: "string \<times> any \<Rightarrow> bool" where
  "validAttr (key, AnyString v) = (TrimSpace key \<noteq> [])"
| "validAttr (key, AnyBool v) = (TrimSpace key \<noteq> [])"
| "validAttr (key, AnyNil) = False"
| "validAttr (key, AnyOther T) = False"

text \<open>
  The text of one attribute as the specification words it: a string value renders as
  \<^verbatim>\<open> name="escaped-value"\<close>, the boolean \<open>true\<close> as the bare \<^verbatim>\<open> name\<close>, the
  boolean \<open>false\<close> as nothing; each attribute has a single leading space, and the name
  is the trimmed key.
\<close>

fun attrText :: "string \<times> any \<Rightarrow> string" where
  "attrText (key, AnyString v) =
     '' '' @ TrimSpace key @ ''='' @ [CHR 0x22] @ EscapeString v @ [CHR 0x22]"
| "attrText (key, AnyBool v) = (if v then '' '' @ TrimSpace key else [])"
| "attrText (key, AnyNil) = []"
| "attrText (key, AnyOther T) = []"

text \<open>
  The normalisation of a text in the specification's words, for comparison with the
  code's \<^verbatim>\<open>strings.Join(strings.FieldsFunc(s, unicode.IsSpace), " ")\<close>: every maximal
  run of whitespace code points is collapsed to a single ASCII space (\<open>inRun\<close> says
  that the code point before was whitespace), and the spaces at the two ends of the
  collapsed form are trimmed.
\<close>

fun collapseRuns :: "bool \<Rightarrow> (rune \<times> string) list \<Rightarrow> string" where
  "collapseRuns inRun [] = []"
| "collapseRuns inRun ((r, bs) # rest) =
     (if IsSpace r then (if inRun then [] else '' '') @ collapseRuns True rest
      else bs @ collapseRuns False rest)"

definition trimSpaces :: "string \<Rightarrow> string" where
  "trimSpaces t =
     rev (dropWhile (\<lambda>c. c = CHR '' '') (rev (dropWhile (\<lambda>c. c = CHR '' '') t)))"

definition rstrip :: "string \<Rightarrow> string" where
  "rstrip t = rev (dropWhile (\<lambda>c. c = CHR '' '') (rev t))"

text \<open>
  What \<^verbatim>\<open>range\<close> yields for one code point: at least one byte, and no space byte
  unless the code point is whitespace.
\<close>

fun chunkOk :: "rune \<times> string \<Rightarrow> bool" where
  "chunkOk (r, bs) = (bs \<noteq> [] \<and> (IsSpace r \<or> CHR '' '' \<notin> set bs))"

text \<open>
  An encoded whitespace code point: the string is the UTF-8 encoding of exactly one
  code point, and \<^verbatim>\<open>unicode.IsSpace\<close> holds of it.
\<close>

definition wsChunk :: "string \<Rightarrow> bool" where
  "wsChunk c = (IsSpace (fst (DecodeRuneInString c)) \<and> snd (DecodeRuneInString c) = length c)"

text \<open>
  The error that \<^verbatim>\<open>renderAttrs\<close> returns for one attribute, after its three error
  returns in their order; \<open>None\<close> for a valid attribute.
\<close>

fun attrError :: "string \<times> any \<Rightarrow> error option" where
  "attrError (key, val) =
     (if TrimSpace key = [] then Some EmptyAttributeKey
      else
        (case val of
           AnyNil \<Rightarrow> Some (NilAttributeValue (TrimSpace key))
         | AnyString v \<Rightarrow> None
         | AnyBool v \<Rightarrow> None
         | AnyOther T \<Rightarrow> Some (InvalidAttributeType T (TrimSpace key))))"

section \<open>Lemmas about the loops\<close>

text \<open>The builder passed to \<^verbatim>\<open>renderChildren\<close> is only appended to.\<close>

lemma renderChildren_builder:
  "renderChildren b cs = (b @ fst (renderChildren [] cs), snd (renderChildren [] cs))"
proof (induction cs arbitrary: b)
  case Nil
  show ?case by simp
next
  case (Cons c cs)
  obtain s e where r: "Node_Render c = (s, e)" by (cases "Node_Render c")
  show ?case
  proof (cases e)
    case None
    with r Cons[of "b @ s"] Cons[of "s"] show ?thesis by simp
  next
    case (Some err)
    with r show ?thesis by simp
  qed
qed

lemma renderAttrs_loop_valid:
  "list_all validAttr xs \<Longrightarrow> renderAttrs_loop b xs = (b @ concat (map attrText xs), None)"
proof (induction xs arbitrary: b)
  case Nil
  show ?case by simp
next
  case (Cons x xs)
  obtain key val where x: "x = (key, val)" by (cases x)
  from Cons.prems have v: "validAttr (key, val)" and rest: "list_all validAttr xs"
    by (simp_all add: x)
  show ?case
    using v Cons.IH[OF rest] by (cases val) (simp_all add: x)
qed

lemma renderAttrs_loop_invalid:
  "\<not> list_all validAttr xs \<Longrightarrow> \<exists>b' err. renderAttrs_loop b xs = (b', Some err)"
proof (induction xs arbitrary: b)
  case Nil
  then show ?case by simp
next
  case (Cons x xs)
  obtain key val where x: "x = (key, val)" by (cases x)
  show ?case
  proof (cases "validAttr (key, val)")
    case True
    with Cons.prems have "\<not> list_all validAttr xs" by (simp add: x)
    from Cons.IH[OF this] True show ?thesis
      by (cases val) (simp_all add: x)
  next
    case False
    then show ?thesis by (cases val) (simp_all add: x Let_def)
  qed
qed

lemma renderAttrs_loop_first_invalid:
  "list_all validAttr pre \<Longrightarrow>
   renderAttrs_loop b (pre @ x # post) = renderAttrs_loop (b @ concat (map attrText pre)) (x # post)"
proof (induction pre arbitrary: b)
  case Nil
  show ?case by simp
next
  case (Cons y pre)
  obtain key val where y: "y = (key, val)" by (cases y)
  from Cons.prems have v: "validAttr (key, val)" and rest: "list_all validAttr pre"
    by (simp_all add: y)
  show ?case
    using v Cons.IH[OF rest] by (cases val) (simp_all add: y)
qed

lemma list_all_sort_key: "list_all Q (sort_key f xs) = list_all Q xs"
  by (simp add: list_all_iff)

lemma Element_Render_valid:
  assumes "tag \<noteq> []" and "list_all validAttr attrs"
  shows "Element_Render (Element tag isVoid attrs cs) =
     (if isVoid then (''<'' @ tag @ concat (map attrText (sort_key fst attrs)) @ ''>'', None)
      else if snd (renderChildren [] cs) = None
        then (''<'' @ tag @ concat (map attrText (sort_key fst attrs)) @ ''>''
               @ fst (renderChildren [] cs) @ ''</'' @ tag @ ''>'', None)
        else ([], None))"
proof -
  have a: "renderAttrs (''<'' @ tag) attrs =
      ((''<'' @ tag) @ concat (map attrText (sort_key fst attrs)), None)"
    unfolding renderAttrs_def
    by (rule renderAttrs_loop_valid) (simp add: list_all_sort_key assms(2))
  obtain s e where c: "renderChildren [] cs = (s, e)" by (cases "renderChildren [] cs")
  have b: "renderChildren (''<'' @ tag @ concat (map attrText (sort_key fst attrs)) @ ''>'') cs
      = ((''<'' @ tag @ concat (map attrText (sort_key fst attrs)) @ ''>'') @ s, e)"
    by (subst renderChildren_builder) (simp add: c)
  show ?thesis
    using assms(1) a b c by (cases e) simp_all
qed

lemma filter_key_distinct:
  "distinct (map fst zs) \<Longrightarrow> k \<in> set zs \<Longrightarrow> filter (\<lambda>x. fst k = fst x) zs = [k]"
proof (induction zs)
  case Nil
  then show ?case by simp
next
  case (Cons z zs)
  show ?case
  proof (cases "k = z")
    case True
    have "filter (\<lambda>x. fst z = fst x) zs = []"
      using Cons.prems(1) by (auto simp: filter_empty_conv image_iff)
    with True show ?thesis by simp
  next
    case False
    with Cons.prems have k: "k \<in> set zs" by simp
    with Cons.prems(1) have "fst k \<noteq> fst z" by (auto simp: image_iff)
    with Cons.IH k Cons.prems(1) show ?thesis by simp
  qed
qed

lemma sort_key_perm_eq:
  assumes "distinct (map fst xs)" and "mset ys = mset xs"
  shows "sort_key fst ys = sort_key fst xs"
proof (rule properties_for_sort_key)
  show "mset (sort_key fst xs) = mset ys" using assms(2) by simp
next
  show "sorted (map fst (sort_key fst xs))" by simp
next
  fix k assume k: "k \<in> set (sort_key fst xs)"
  have dy: "distinct (map fst ys)"
    using assms by (metis distinct_map mset_eq_setD mset_map set_mset_mset distinct_count_atmost_1 mset_eq_imp_distinct_iff)
  have ds: "distinct (map fst (sort_key fst xs))"
    using assms(1) by (metis mset_eq_imp_distinct_iff mset_map mset_sort)
  have ky: "k \<in> set ys" using k assms(2) by (metis mset_eq_setD set_sort)
  show "filter (\<lambda>x. fst k = fst x) (sort_key fst xs) = filter (\<lambda>x. fst k = fst x) ys"
    using filter_key_distinct[OF ds k] filter_key_distinct[OF dy ky] by simp
qed

lemma Element_Render_no_child_error:
  assumes "tag \<noteq> []" and "list_all validAttr attrs"
  shows "snd (Element_Render (Element tag isVoid attrs cs)) = None"
  unfolding Element_Render_valid[OF assms] by simp

text \<open>
  On a key of ASCII bytes \<^verbatim>\<open>strings.TrimSpace\<close> stays in its two byte loops: it
  removes the leading and the trailing bytes of \<^verbatim>\<open>asciiSpace\<close>.
\<close>

lemma TrimSpace_stop_ascii:
  "list_all (\<lambda>c. of_char c < (0x80::nat)) s \<Longrightarrow>
   TrimSpace_stop s = rev (dropWhile (\<lambda>c. asciiSpace (of_char c)) (rev s))"
proof (induction s rule: TrimSpace_stop.induct)
  case (1 s)
  show ?case
  proof (cases "s = []")
    case True
    then show ?thesis by (simp add: TrimSpace_stop.simps)
  next
    case False
    then have s: "s = butlast s @ [last s]" by simp
    from "1.prems" False have lt: "of_char (last s) < (0x80::nat)"
      by (simp add: list_all_iff)
    have bl: "list_all (\<lambda>c. of_char c < (0x80::nat)) (butlast s)"
      using "1.prems" by (auto simp: list_all_iff dest: in_set_butlastD)
    have r: "rev s = last s # rev (butlast s)"
      by (subst s) simp
    show ?thesis
    proof (cases "asciiSpace (of_char (last s))")
      case True
      have "TrimSpace_stop s = TrimSpace_stop (butlast s)"
        using False lt True by (subst TrimSpace_stop.simps) (simp add: Let_def)
      also have "\<dots> = rev (dropWhile (\<lambda>c. asciiSpace (of_char c)) (rev (butlast s)))"
        using "1.IH"[OF False refl _ True bl] lt by simp
      finally show ?thesis using True by (simp add: r)
    next
      case nsp: False
      have "TrimSpace_stop s = s"
        using False lt nsp by (subst TrimSpace_stop.simps) (simp add: Let_def)
      moreover have "rev (dropWhile (\<lambda>c. asciiSpace (of_char c)) (rev s)) = s"
        using nsp by (simp add: r) (metis r rev_rev_ident rev.simps(2))
      ultimately show ?thesis by simp
    qed
  qed
qed

lemma TrimSpace_ascii:
  "list_all (\<lambda>c. of_char c < (0x80::nat)) s \<Longrightarrow>
   TrimSpace s = rev (dropWhile (\<lambda>c. asciiSpace (of_char c))
                   (rev (dropWhile (\<lambda>c. asciiSpace (of_char c)) s)))"
proof (induction s)
  case Nil
  show ?case by simp
next
  case (Cons c cs)
  then show ?case
    using TrimSpace_stop_ascii[of "c # cs"] by simp
qed

text \<open>
  The fields of a string joined by single spaces are its collapsed and trimmed form.
\<close>

lemma of_char_space: "(of_char c = (32::nat)) = (c = CHR '' '')"
proof -
  have "(of_char c = (of_char (CHR '' '') :: nat)) = (c = CHR '' '')"
    by (simp only: of_char_eq_iff)
  then show ?thesis by simp
qed

lemma Decode_ascii:
  "of_char c < (0x80::nat) \<Longrightarrow> DecodeRuneInString (c # cs) = (of_char c, 1)"
  by (simp add: DecodeRuneInString_def)

lemma Decode_size_le: "snd (DecodeRuneInString s) \<le> 4"
  by (cases s) (auto simp: DecodeRuneInString_def Let_def split: option.splits)

lemma Decode_nonascii_bytes:
  assumes "(0x80::nat) \<le> of_char c" and "i < snd (DecodeRuneInString (c # cs))"
  shows "i < length (c # cs) \<and> (0x80::nat) \<le> of_char ((c # cs) ! i)"
proof (cases "first (of_char c)")
  case None
  with assms show ?thesis
    by (simp add: DecodeRuneInString_def)
next
  case (Some t)
  obtain sz lo hi where t: "t = (sz, lo, hi)" by (cases t)
  have lo: "0x80 \<le> lo \<and> 2 \<le> sz"
    using Some t by (auto simp: first_def split: if_splits)
  have i4: "i < 4" using assms(2) Decode_size_le[of "c # cs"] by simp
  then consider "i = 0" | "i = 1" | "i = 2" | "i = 3" by linarith
  then show ?thesis
  proof cases
    case 1
    with assms(1) show ?thesis by simp
  next
    case 2
    with assms Some t lo show ?thesis
      by (cases cs) (auto simp: DecodeRuneInString_def Let_def split: if_splits)
  next
    case 3
    with assms Some t lo show ?thesis
      by (cases cs; cases "tl cs") (auto simp: DecodeRuneInString_def Let_def split: if_splits)
  next
    case 4
    with assms Some t lo show ?thesis
      by (cases cs; cases "tl cs"; cases "tl (tl cs)")
         (auto simp: DecodeRuneInString_def Let_def split: if_splits)
  qed
qed

lemma chunk_of_Decode:
  "chunkOk (fst (DecodeRuneInString (c # cs)),
            take (snd (DecodeRuneInString (c # cs))) (c # cs))"
proof (cases "of_char c < (0x80::nat)")
  case True
  then show ?thesis
    by (auto simp: Decode_ascii IsSpace_def of_char_space)
next
  case False
  then have ge: "(0x80::nat) \<le> of_char c" by simp
  have pos: "0 < snd (DecodeRuneInString (c # cs))"
    by (rule DecodeRuneInString_size_pos) simp
  have "CHR '' '' \<notin> set (take (snd (DecodeRuneInString (c # cs))) (c # cs))"
  proof
    assume "CHR '' '' \<in> set (take (snd (DecodeRuneInString (c # cs))) (c # cs))"
    then obtain i where i: "i < snd (DecodeRuneInString (c # cs))" "i < length (c # cs)"
        and e: "(c # cs) ! i = CHR '' ''"
      by (auto simp: in_set_conv_nth)
    from Decode_nonascii_bytes[OF ge i(1)] e show False by simp
  qed
  with pos show ?thesis by simp
qed

lemma runes_chunkOk: "list_all chunkOk (runes s)"
proof (induction s rule: runes.induct)
  case 1
  show ?case by simp
next
  case (2 c cs)
  from "2.IH"[OF refl] chunk_of_Decode[of c cs] show ?case
    by (simp add: Let_def)
qed

lemma FieldsFunc_loop_nonempty:
  "list_all chunkOk rs \<Longrightarrow> (case cur of None \<Rightarrow> True | Some x \<Rightarrow> x \<noteq> []) \<Longrightarrow>
   [] \<notin> set (FieldsFunc_loop f cur rs)"
proof (induction f cur rs rule: FieldsFunc_loop.induct)
  case (1 f)
  show ?case by simp
next
  case (2 f cur)
  then show ?case by simp
next
  case (3 f r bs rest)
  then show ?case by simp
next
  case (4 f cur r bs rest)
  then show ?case by simp
qed

lemma Join_eq_Nil: "[] \<notin> set fs \<Longrightarrow> (Join fs sep = []) = (fs = [])"
  by (induction fs sep rule: Join.induct) auto

lemma Join_Cons: "Join (x # fs) sep = (if fs = [] then x else x @ sep @ Join fs sep)"
  by (cases fs) simp_all

lemma collapseRuns_True_no_lead:
  "list_all chunkOk rs \<Longrightarrow>
   dropWhile (\<lambda>c. c = CHR '' '') (collapseRuns True rs) = collapseRuns True rs"
proof (induction rs)
  case Nil
  show ?case by simp
next
  case (Cons x rs)
  obtain r bs where x: "x = (r, bs)" by (cases x)
  show ?case
  proof (cases "IsSpace r")
    case True
    with Cons x show ?thesis by simp
  next
    case False
    with Cons.prems x have "bs \<noteq> []" "hd bs \<noteq> CHR '' ''"
      by (auto dest: hd_in_set)
    then have "dropWhile (\<lambda>c. c = CHR '' '') (bs @ collapseRuns False rs) = bs @ collapseRuns False rs"
      by (cases bs) simp_all
    with False x show ?thesis by simp
  qed
qed

lemma rstrip_field:
  "cur \<noteq> [] \<Longrightarrow> CHR '' '' \<notin> set cur \<Longrightarrow> rstrip (cur @ t) = cur @ rstrip t"
proof -
  assume ne: "cur \<noteq> []" and ns: "CHR '' '' \<notin> set cur"
  then have "last cur \<noteq> CHR '' ''" by (metis last_in_set)
  then have d: "dropWhile (\<lambda>c. c = CHR '' '') (rev cur) = rev cur"
    using ne by (cases "rev cur") (auto simp: last_rev hd_rev dropWhile_eq_self_iff)
  show ?thesis
    unfolding rstrip_def by (simp add: dropWhile_append d)
qed

lemma rstrip_space:
  "rstrip (CHR '' '' # t) = (if rstrip t = [] then [] else CHR '' '' # rstrip t)"
  unfolding rstrip_def by (auto simp: dropWhile_append)

lemma trimSpaces_field:
  "cur \<noteq> [] \<Longrightarrow> CHR '' '' \<notin> set cur \<Longrightarrow> trimSpaces (cur @ t) = cur @ rstrip t"
proof -
  assume ne: "cur \<noteq> []" and ns: "CHR '' '' \<notin> set cur"
  then have "hd cur \<noteq> CHR '' ''" by (metis hd_in_set)
  with ne have "dropWhile (\<lambda>c. c = CHR '' '') (cur @ t) = cur @ t"
    by (cases cur) simp_all
  then show ?thesis
    using rstrip_field[OF ne ns, of t] by (simp add: trimSpaces_def rstrip_def)
qed

lemma fields_collapse:
  assumes "list_all chunkOk rs"
  shows "trimSpaces (collapseRuns b rs) = Join (FieldsFunc_loop IsSpace None rs) '' ''"
    and "cur \<noteq> [] \<Longrightarrow> CHR '' '' \<notin> set cur \<Longrightarrow>
         cur @ rstrip (collapseRuns False rs) = Join (FieldsFunc_loop IsSpace (Some cur) rs) '' ''"
  using assms
proof (induction rs arbitrary: b cur)
  case Nil
  {
    case 1
    show ?case by (simp add: trimSpaces_def)
  next
    case 2
    show ?case by (simp add: rstrip_def)
  }
next
  case (Cons x rs)
  obtain r bs where x: "x = (r, bs)" by (cases x)
  {
    case 1
    then have ok: "list_all chunkOk rs" and cx: "chunkOk (r, bs)" by (simp_all add: x)
    show ?case
    proof (cases "IsSpace r")
      case True
      have "trimSpaces (collapseRuns b (x # rs)) = trimSpaces (collapseRuns True rs)"
        using True by (simp add: x trimSpaces_def)
      with Cons.IH(1)[OF ok, of True] True show ?thesis by (simp add: x)
    next
      case False
      with cx have ne: "bs \<noteq> []" and ns: "CHR '' '' \<notin> set bs" by simp_all
      from Cons.IH(2)[OF ne ns ok] False trimSpaces_field[OF ne ns] show ?thesis
        by (simp add: x)
    qed
  next
    case 2
    then have ok: "list_all chunkOk rs" and cx: "chunkOk (r, bs)"
      and ne: "cur \<noteq> []" and ns: "CHR '' '' \<notin> set cur" by (simp_all add: x)
    show ?case
    proof (cases "IsSpace r")
      case True
      have l: "dropWhile (\<lambda>c. c = CHR '' '') (collapseRuns True rs) = collapseRuns True rs"
        by (rule collapseRuns_True_no_lead[OF ok])
      have t: "rstrip (collapseRuns True rs) = Join (FieldsFunc_loop IsSpace None rs) '' ''"
        using Cons.IH(1)[OF ok, of True] by (simp add: trimSpaces_def rstrip_def l)
      have n: "[] \<notin> set (FieldsFunc_loop IsSpace None rs)"
        by (rule FieldsFunc_loop_nonempty[OF ok]) simp
      show ?thesis
        using True t Join_eq_Nil[OF n, of "'' ''"]
        by (simp add: x rstrip_space Join_Cons)
    next
      case False
      with cx have ne': "cur @ bs \<noteq> []" and ns': "CHR '' '' \<notin> set (cur @ bs)"
        using ne ns by simp_all
      have "rstrip (bs @ collapseRuns False rs) = bs @ rstrip (collapseRuns False rs)"
        using cx False by (intro rstrip_field) simp_all
      with Cons.IH(2)[OF ne' ns' ok] False show ?thesis
        by (simp add: x)
    qed
  }
qed

lemma FieldsFunc_collapses:
  "Join (FieldsFunc s IsSpace) '' '' = trimSpaces (collapseRuns False (runes s))"
  unfolding FieldsFunc_def by (rule fields_collapse(1)[OF runes_chunkOk, symmetric])

text \<open>
  What \<^verbatim>\<open>strings.TrimSpace\<close> removes, for every string: first the facts about the
  two decoders, then the loops.
\<close>

lemma first_Some_bounds:
  "first b = Some (sz, lo, hi) \<Longrightarrow> 0xC2 \<le> b \<and> 2 \<le> sz \<and> sz \<le> 4 \<and> 0x80 \<le> lo \<and> hi \<le> 0xBF"
  by (auto simp: first_def split: if_splits)

lemma Decode_invalid_lead:
  "(0x80::nat) \<le> of_char c \<Longrightarrow> first (of_char c) = None \<Longrightarrow>
   DecodeRuneInString (c # cs) = (RuneError, 1)"
  by (simp add: DecodeRuneInString_def)

lemma Decode_short:
  "(0x80::nat) \<le> of_char c \<Longrightarrow> first (of_char c) = Some (sz, lo, hi) \<Longrightarrow>
   length (c # cs) < sz \<Longrightarrow> DecodeRuneInString (c # cs) = (RuneError, 1)"
  by (simp add: DecodeRuneInString_def)

text \<open>A decoding reads only the bytes of the sequence it announces.\<close>

lemma Decode_append:
  "s \<noteq> [] \<Longrightarrow>
   DecodeRuneInString (s @ u) = DecodeRuneInString s \<or> DecodeRuneInString s = (RuneError, 1)"
proof -
  assume "s \<noteq> []"
  then obtain c cs where s: "s = c # cs" by (cases s) auto
  show ?thesis
  proof (cases "of_char c < (0x80::nat)")
    case True
    then show ?thesis by (simp add: s Decode_ascii)
  next
    case False
    then have ge: "(0x80::nat) \<le> of_char c" by simp
    show ?thesis
    proof (cases "first (of_char c)")
      case None
      with ge show ?thesis by (simp add: s Decode_invalid_lead)
    next
      case (Some t)
      obtain sz lo hi where t: "t = (sz, lo, hi)" by (cases t)
      note f = Some[unfolded t]
      note b = first_Some_bounds[OF f]
      show ?thesis
      proof (cases "length (c # cs) < sz")
        case True
        with ge f show ?thesis by (simp add: s Decode_short)
      next
        case False
        then have len: "sz \<le> Suc (length cs)" by simp
        from b have "sz = 2 \<or> sz = 3 \<or> sz = 4" by linarith
        then have "DecodeRuneInString ((c # cs) @ u) = DecodeRuneInString (c # cs)"
          using len ge f
          by (cases cs; cases "tl cs"; cases "tl (tl cs)")
             (auto simp: DecodeRuneInString_def Let_def)
        then show ?thesis by (simp add: s)
      qed
    qed
  qed
qed

lemma Decode_size_le_length: "snd (DecodeRuneInString s) \<le> length s"
proof (cases s)
  case Nil
  then show ?thesis by (simp add: DecodeRuneInString_def)
next
  case (Cons c cs)
  show ?thesis
  proof (cases "first (of_char c)")
    case None
    then show ?thesis by (simp add: Cons DecodeRuneInString_def)
  next
    case (Some t)
    obtain sz lo hi where t: "t = (sz, lo, hi)" by (cases t)
    from first_Some_bounds[OF Some[unfolded t]] have "sz = 2 \<or> sz = 3 \<or> sz = 4" by linarith
    then show ?thesis
      using Some t
      by (cases cs; cases "tl cs"; cases "tl (tl cs)")
         (auto simp: Cons DecodeRuneInString_def Let_def)
  qed
qed

lemma Decode_take:
  "DecodeRuneInString (take (snd (DecodeRuneInString s)) s) = DecodeRuneInString s"
proof (cases s)
  case Nil
  then show ?thesis by (simp add: DecodeRuneInString_def)
next
  case (Cons c cs)
  let ?n = "snd (DecodeRuneInString s)"
  have pos: "0 < ?n" using Cons DecodeRuneInString_size_pos[of s] by simp
  then have ne: "take ?n s \<noteq> []" using Cons by (cases ?n) auto
  from Decode_append[OF ne, of "drop ?n s"]
  have "DecodeRuneInString s = DecodeRuneInString (take ?n s)
      \<or> DecodeRuneInString (take ?n s) = (RuneError, 1)"
    by simp
  then show ?thesis
  proof
    assume "DecodeRuneInString s = DecodeRuneInString (take ?n s)"
    then show ?thesis by simp
  next
    assume e: "DecodeRuneInString (take ?n s) = (RuneError, 1)"
    show ?thesis
    proof (cases "of_char c < (0x80::nat)")
      case True
      then show ?thesis by (simp add: Cons Decode_ascii)
    next
      case False
      then have ge: "(0x80::nat) \<le> of_char c" by simp
      show ?thesis
      proof (cases "first (of_char c)")
        case None
        with ge show ?thesis by (simp add: Cons Decode_invalid_lead)
      next
        case (Some t)
        obtain sz lo hi where t: "t = (sz, lo, hi)" by (cases t)
        note f = Some[unfolded t]
        note b = first_Some_bounds[OF f]
        from b have "sz = 2 \<or> sz = 3 \<or> sz = 4" by linarith
        then show ?thesis
          using ge f
          by (cases cs; cases "tl cs"; cases "tl (tl cs)")
             (auto simp: Cons DecodeRuneInString_def Let_def)
      qed
    qed
  qed
qed

lemma Decode_after_lead:
  assumes "(0x80::nat) \<le> of_char c" and "t = [] \<or> RuneStart (of_char (hd t))"
  shows "snd (DecodeRuneInString (c # t)) = 1"
proof (cases "first (of_char c)")
  case None
  with assms(1) show ?thesis by (simp add: Decode_invalid_lead)
next
  case (Some x)
  obtain sz lo hi where x: "x = (sz, lo, hi)" by (cases x)
  note f = Some[unfolded x]
  note b = first_Some_bounds[OF f]
  show ?thesis
    using assms f b
    by (cases t) (auto simp: DecodeRuneInString_def Let_def RuneStart_def)
qed

lemma IsSpace_RuneError: "\<not> IsSpace RuneError"
  by (simp add: IsSpace_def RuneError_def)

lemma wsChunk_RuneStart:
  assumes "wsChunk c"
  shows "c \<noteq> [] \<and> RuneStart (of_char (hd c))"
proof (cases c)
  case Nil
  with assms IsSpace_RuneError show ?thesis
    by (simp add: wsChunk_def DecodeRuneInString_def)
next
  case (Cons a as)
  show ?thesis
  proof (cases "of_char a < (0x80::nat)")
    case True
    then show ?thesis by (simp add: Cons RuneStart_def)
  next
    case False
    then have ge: "(0x80::nat) \<le> of_char a" by simp
    show ?thesis
    proof (cases "first (of_char a)")
      case None
      from Decode_invalid_lead[OF ge None, of as] assms IsSpace_RuneError show ?thesis
        by (simp add: Cons wsChunk_def)
    next
      case (Some x)
      obtain sz lo hi where x: "x = (sz, lo, hi)" by (cases x)
      from first_Some_bounds[OF Some[unfolded x]] show ?thesis
        by (simp add: Cons RuneStart_def)
    qed
  qed
qed

lemma wsChunk_ascii:
  "of_char c < (0x80::nat) \<Longrightarrow> asciiSpace (of_char c) \<Longrightarrow> wsChunk [c]"
  by (auto simp: wsChunk_def Decode_ascii asciiSpace_def IsSpace_def)

lemma ascii_not_space:
  "of_char c < (0x80::nat) \<Longrightarrow> \<not> asciiSpace (of_char c) \<Longrightarrow> \<not> IsSpace (of_char c)"
  by (auto simp: asciiSpace_def IsSpace_def)

text \<open>The forward loop of \<^verbatim>\<open>TrimLeftFunc\<close>.\<close>

lemma indexFunc_loop_runes:
  "(indexFunc_loop IsSpace False i (runes s) = - 1
      \<and> (\<exists>ls. s = concat ls \<and> list_all wsChunk ls))
   \<or> (\<exists>ls t. s = concat ls @ t \<and> list_all wsChunk ls \<and> t \<noteq> []
         \<and> \<not> IsSpace (fst (DecodeRuneInString t))
         \<and> indexFunc_loop IsSpace False i (runes s) = int (i + length (concat ls)))"
proof (induction s arbitrary: i rule: runes.induct)
  case 1
  have "\<exists>ls. ([]::string) = concat ls \<and> list_all wsChunk ls"
    by (rule exI[of _ "[]"]) simp
  then show ?case by simp
next
  case (2 c cs)
  let ?s = "c # cs"
  let ?n = "snd (DecodeRuneInString ?s)"
  let ?r = "fst (DecodeRuneInString ?s)"
  have ru: "runes ?s = (?r, take ?n ?s) # runes (drop ?n ?s)"
    by (simp add: Let_def)
  show ?case
  proof (cases "IsSpace ?r")
    case False
    have "?s = concat [] @ ?s \<and> list_all wsChunk [] \<and> ?s \<noteq> []
        \<and> \<not> IsSpace (fst (DecodeRuneInString ?s))
        \<and> indexFunc_loop IsSpace False i (runes ?s) = int (i + length (concat ([]::string list)))"
      using False by (simp add: ru del: runes.simps)
    then show ?thesis by blast
  next
    case True
    have le: "?n \<le> length ?s" by (rule Decode_size_le_length)
    have w: "wsChunk (take ?n ?s)"
      using True le by (simp add: wsChunk_def Decode_take del: DecodeRuneInString_size_pos)
    have st: "?s = take ?n ?s @ drop ?n ?s" by simp
    have ix: "indexFunc_loop IsSpace False i (runes ?s)
        = indexFunc_loop IsSpace False (i + ?n) (runes (drop ?n ?s))"
      using True le by (simp add: ru del: runes.simps)
    from "2.IH"[OF refl, of "i + ?n"] show ?thesis
    proof
      assume a: "indexFunc_loop IsSpace False (i + ?n) (runes (drop ?n ?s)) = - 1
          \<and> (\<exists>ls. drop ?n ?s = concat ls \<and> list_all wsChunk ls)"
      then obtain ls where ls: "drop ?n ?s = concat ls" "list_all wsChunk ls" by blast
      have "?s = concat (take ?n ?s # ls)" using st ls(1) by (metis concat.simps(2))
      moreover have "list_all wsChunk (take ?n ?s # ls)" using w ls(2) by simp
      ultimately show ?thesis using a ix by metis
    next
      assume "\<exists>ls t. drop ?n ?s = concat ls @ t \<and> list_all wsChunk ls \<and> t \<noteq> []
          \<and> \<not> IsSpace (fst (DecodeRuneInString t))
          \<and> indexFunc_loop IsSpace False (i + ?n) (runes (drop ?n ?s))
              = int (i + ?n + length (concat ls))"
      then obtain ls t where b: "drop ?n ?s = concat ls @ t" "list_all wsChunk ls" "t \<noteq> []"
          "\<not> IsSpace (fst (DecodeRuneInString t))"
          "indexFunc_loop IsSpace False (i + ?n) (runes (drop ?n ?s))
              = int (i + ?n + length (concat ls))"
        by blast
      have 1: "?s = concat (take ?n ?s # ls) @ t"
        using st b(1) by (metis append.assoc concat.simps(2))
      have 2: "list_all wsChunk (take ?n ?s # ls)" using w b(2) by simp
      have 3: "indexFunc_loop IsSpace False i (runes ?s)
          = int (i + length (concat (take ?n ?s # ls)))"
        using ix b(5) le by simp
      from 1 2 3 b(3,4) show ?thesis by blast
    qed
  qed
qed

lemma TrimLeftFunc_spec:
  "\<exists>ls. s = concat ls @ TrimLeftFunc s IsSpace \<and> list_all wsChunk ls
     \<and> (TrimLeftFunc s IsSpace = []
         \<or> \<not> IsSpace (fst (DecodeRuneInString (TrimLeftFunc s IsSpace))))"
proof -
  from indexFunc_loop_runes[of 0 s] show ?thesis
  proof
    assume "indexFunc_loop IsSpace False 0 (runes s) = - 1
      \<and> (\<exists>ls. s = concat ls \<and> list_all wsChunk ls)"
    then show ?thesis
      by (auto simp: TrimLeftFunc_def indexFunc_def)
  next
    assume "\<exists>ls t. s = concat ls @ t \<and> list_all wsChunk ls \<and> t \<noteq> []
         \<and> \<not> IsSpace (fst (DecodeRuneInString t))
         \<and> indexFunc_loop IsSpace False 0 (runes s) = int (0 + length (concat ls))"
    then obtain ls t where b: "s = concat ls @ t" "list_all wsChunk ls" "t \<noteq> []"
        "\<not> IsSpace (fst (DecodeRuneInString t))"
        "indexFunc_loop IsSpace False 0 (runes s) = int (0 + length (concat ls))"
      by blast
    have tl: "TrimLeftFunc s IsSpace = t"
      using b(5) by (simp add: TrimLeftFunc_def indexFunc_def Let_def b(1))
    show ?thesis unfolding tl using b(1,2,4) by blast
  qed
qed

text \<open>The three ways \<^verbatim>\<open>DecodeLastRuneInString\<close> returns on a string that is not empty.\<close>

lemma DecodeLast_cases:
  assumes "p \<noteq> []"
  shows "(of_char (last p) < (0x80::nat)
            \<and> DecodeLastRuneInString p = (of_char (last p), 1))
       \<or> ((0x80::nat) \<le> of_char (last p) \<and> DecodeLastRuneInString p = (RuneError, 1))
       \<or> ((0x80::nat) \<le> of_char (last p)
            \<and> snd (DecodeLastRuneInString p) \<le> length p
            \<and> DecodeRuneInString (drop (length p - snd (DecodeLastRuneInString p)) p)
                = DecodeLastRuneInString p)"
proof -
  have l: "p ! nat (int (length p) - 1) = last p"
    using assms by (simp add: last_conv_nth nat_diff_distrib')
  show ?thesis
  proof (cases "of_char (last p) < (0x80::nat)")
    case True
    then show ?thesis
      using assms by (simp add: DecodeLastRuneInString_def Let_def l)
  next
    case False
    define start0 where
      "start0 = scanStart p (int (length p) - 2) (max (int (length p) - 4) 0)"
    define start where "start = (if start0 < 0 then 0 else start0)"
    obtain r' size where d: "DecodeRuneInString (drop (nat start) p) = (r', size)"
      by (cases "DecodeRuneInString (drop (nat start) p)")
    have "DecodeLastRuneInString p
        = (case DecodeRuneInString (drop (nat start) p) of
             (r', size) \<Rightarrow>
               if start + int size \<noteq> int (length p) then (RuneError, 1) else (r', size))"
      using assms False unfolding start_def start0_def
      by (simp add: DecodeLastRuneInString_def Let_def l)
    then have dl: "DecodeLastRuneInString p
        = (if start + int size \<noteq> int (length p) then (RuneError, 1) else (r', size))"
      by (simp add: d)
    show ?thesis
    proof (cases "start + int size \<noteq> int (length p)")
      case True
      with dl False show ?thesis by simp
    next
      case eq: False
      have s0: "0 \<le> start" by (simp add: start_def)
      from eq s0 have n: "nat start = length p - size" and le: "size \<le> length p"
        by linarith+
      from dl eq have "DecodeLastRuneInString p = (r', size)" by simp
      with d n le False show ?thesis by simp
    qed
  qed
qed

lemma DecodeLast_wsChunk:
  assumes "p \<noteq> []" and "IsSpace (fst (DecodeLastRuneInString p))"
  shows "wsChunk (drop (length p - snd (DecodeLastRuneInString p)) p)"
proof -
  from DecodeLast_cases[OF assms(1)] show ?thesis
  proof (elim disjE conjE)
    assume a: "of_char (last p) < (0x80::nat)"
      and d: "DecodeLastRuneInString p = (of_char (last p), 1)"
    have "drop (length p - 1) p = [last p]"
      using assms(1) by (metis append_butlast_last_id append_eq_conv_conj length_butlast)
    with a d assms(2) show ?thesis
      by (simp add: wsChunk_def Decode_ascii)
  next
    assume "DecodeLastRuneInString p = (RuneError, 1)"
    with assms(2) IsSpace_RuneError show ?thesis by simp
  next
    assume le: "snd (DecodeLastRuneInString p) \<le> length p"
      and d: "DecodeRuneInString (drop (length p - snd (DecodeLastRuneInString p)) p)
                = DecodeLastRuneInString p"
    with assms(2) show ?thesis by (simp add: wsChunk_def)
  qed
qed

text \<open>The backward loop of \<^verbatim>\<open>TrimRightFunc\<close>.\<close>

lemma lastIndexFunc_spec:
  "(lastIndexFunc s IsSpace False = - 1
      \<and> (\<exists>rs. s = concat rs \<and> list_all wsChunk rs))
   \<or> (\<exists>p rs. s = p @ concat rs \<and> list_all wsChunk rs \<and> p \<noteq> []
         \<and> \<not> IsSpace (fst (DecodeLastRuneInString p))
         \<and> lastIndexFunc s IsSpace False
             = int (length p - snd (DecodeLastRuneInString p)))"
proof (induction s "IsSpace" False rule: lastIndexFunc.induct)
  case (1 s)
  show ?case
  proof (cases "s = []")
    case True
    have "\<exists>rs. ([]::string) = concat rs \<and> list_all wsChunk rs"
      by (rule exI[of _ "[]"]) simp
    with True show ?thesis by (simp add: lastIndexFunc.simps)
  next
    case ne: False
    let ?i = "length s - snd (DecodeLastRuneInString s)"
    show ?thesis
    proof (cases "IsSpace (fst (DecodeLastRuneInString s))")
      case False
      have "lastIndexFunc s IsSpace False = int ?i"
        using ne False by (subst lastIndexFunc.simps) (simp add: Let_def)
      moreover have "s = s @ concat []" by simp
      ultimately have "s = s @ concat [] \<and> list_all wsChunk [] \<and> s \<noteq> []
         \<and> \<not> IsSpace (fst (DecodeLastRuneInString s))
         \<and> lastIndexFunc s IsSpace False = int (length s - snd (DecodeLastRuneInString s))"
        using ne False by simp
      then show ?thesis by blast
    next
      case True
      have w: "wsChunk (drop ?i s)" by (rule DecodeLast_wsChunk[OF ne True])
      have st: "s = take ?i s @ drop ?i s" by simp
      have rec: "lastIndexFunc s IsSpace False = lastIndexFunc (take ?i s) IsSpace False"
        using ne True by (subst lastIndexFunc.simps) (simp add: Let_def)
      from "1.hyps"[OF ne refl] True
      have "(lastIndexFunc (take ?i s) IsSpace False = - 1
            \<and> (\<exists>rs. take ?i s = concat rs \<and> list_all wsChunk rs))
         \<or> (\<exists>p rs. take ?i s = p @ concat rs \<and> list_all wsChunk rs \<and> p \<noteq> []
               \<and> \<not> IsSpace (fst (DecodeLastRuneInString p))
               \<and> lastIndexFunc (take ?i s) IsSpace False
                   = int (length p - snd (DecodeLastRuneInString p)))"
        by simp
      then show ?thesis
      proof
        assume a: "lastIndexFunc (take ?i s) IsSpace False = - 1
            \<and> (\<exists>rs. take ?i s = concat rs \<and> list_all wsChunk rs)"
        then obtain rs where rs: "take ?i s = concat rs" "list_all wsChunk rs" by blast
        have "s = concat (rs @ [drop ?i s])"
          using st rs(1) by (metis append_Nil2 concat.simps(1) concat.simps(2) concat_append)
        moreover have "list_all wsChunk (rs @ [drop ?i s])" using w rs(2) by simp
        ultimately show ?thesis using a rec by metis
      next
        assume "\<exists>p rs. take ?i s = p @ concat rs \<and> list_all wsChunk rs \<and> p \<noteq> []
               \<and> \<not> IsSpace (fst (DecodeLastRuneInString p))
               \<and> lastIndexFunc (take ?i s) IsSpace False
                   = int (length p - snd (DecodeLastRuneInString p))"
        then obtain p rs where b: "take ?i s = p @ concat rs" "list_all wsChunk rs" "p \<noteq> []"
            "\<not> IsSpace (fst (DecodeLastRuneInString p))"
            "lastIndexFunc (take ?i s) IsSpace False
                   = int (length p - snd (DecodeLastRuneInString p))"
          by blast
        have 1: "s = p @ concat (rs @ [drop ?i s])"
          using st b(1)
          by (metis append.assoc append_Nil2 concat.simps(1) concat.simps(2) concat_append)
        have 2: "list_all wsChunk (rs @ [drop ?i s])" using w b(2) by simp
        from 1 2 b(3,4,5) rec show ?thesis by metis
      qed
    qed
  qed
qed

lemma wsChunks_RuneStart:
  "list_all wsChunk rs \<Longrightarrow> concat rs = [] \<or> RuneStart (of_char (hd (concat rs)))"
proof (cases rs)
  case Nil
  then show ?thesis by simp
next
  case (Cons c rs')
  assume "list_all wsChunk rs"
  with Cons have "wsChunk c" by simp
  from wsChunk_RuneStart[OF this] show ?thesis by (simp add: Cons)
qed

lemma drop_last: "p \<noteq> [] \<Longrightarrow> drop (length p - Suc 0) p = [last p]"
  by (metis One_nat_def append_butlast_last_id append_eq_conv_conj length_butlast)

lemma TrimRightFunc_spec:
  "\<exists>rs. s = TrimRightFunc s IsSpace @ concat rs \<and> list_all wsChunk rs
     \<and> (TrimRightFunc s IsSpace = []
         \<or> \<not> IsSpace (fst (DecodeLastRuneInString (TrimRightFunc s IsSpace))))"
proof -
  from lastIndexFunc_spec[of s] show ?thesis
  proof
    assume a: "lastIndexFunc s IsSpace False = - 1
      \<and> (\<exists>rs. s = concat rs \<and> list_all wsChunk rs)"
    then have "TrimRightFunc s IsSpace = []"
      by (simp add: TrimRightFunc_def)
    with a show ?thesis by simp
  next
    assume "\<exists>p rs. s = p @ concat rs \<and> list_all wsChunk rs \<and> p \<noteq> []
         \<and> \<not> IsSpace (fst (DecodeLastRuneInString p))
         \<and> lastIndexFunc s IsSpace False
             = int (length p - snd (DecodeLastRuneInString p))"
    then obtain p rs where b: "s = p @ concat rs" "list_all wsChunk rs" "p \<noteq> []"
        "\<not> IsSpace (fst (DecodeLastRuneInString p))"
        "lastIndexFunc s IsSpace False = int (length p - snd (DecodeLastRuneInString p))"
      by blast
    define size where "size = snd (DecodeLastRuneInString p)"
    define i where "i = length p - size"
    have pos: "0 < size"
      unfolding size_def by (rule DecodeLastRuneInString_size_pos[OF b(3)])
    have il: "i < length p" using pos b(3) by (simp add: i_def)
    have nth: "s ! i = p ! i" using il by (simp add: b(1) nth_append)
    have dr: "drop i s = drop i p @ concat rs" using il by (simp add: b(1))
    have idx: "lastIndexFunc s IsSpace False = int i"
      using b(5) by (simp add: i_def size_def)
    have tr: "TrimRightFunc s IsSpace
        = (if (0x80::nat) \<le> of_char (p ! i)
           then take (i + snd (DecodeRuneInString (drop i p @ concat rs))) s
           else take (Suc i) s)"
      by (simp add: TrimRightFunc_def idx nth dr Let_def nat_add_distrib)
    have rs: "concat rs = [] \<or> RuneStart (of_char (hd (concat rs)))"
      by (rule wsChunks_RuneStart[OF b(2)])
    have tp: "TrimRightFunc s IsSpace = p"
    proof (cases "size = 1")
      case True
      then have i1: "i = length p - Suc 0" and si: "Suc i = length p"
        using b(3) by (simp_all add: i_def)
      have pl: "p ! i = last p" using b(3) by (simp add: i1 last_conv_nth)
      have dl: "drop i p = [last p]" using b(3) by (simp add: i1 drop_last)
      show ?thesis
      proof (cases "(0x80::nat) \<le> of_char (last p)")
        case False
        then show ?thesis unfolding tr by (simp add: pl si b(1))
      next
        case ge: True
        have "snd (DecodeRuneInString (last p # concat rs)) = 1"
          by (rule Decode_after_lead[OF ge rs])
        then show ?thesis unfolding tr using ge by (simp add: pl dl si b(1))
      qed
    next
      case False
      with pos have s2: "2 \<le> size" by simp
      from DecodeLast_cases[OF b(3)] s2
      have c: "(0x80::nat) \<le> of_char (last p)" "size \<le> length p"
          "DecodeRuneInString (drop i p) = DecodeLastRuneInString p"
        by (auto simp: size_def i_def)
      have ne: "drop i p \<noteq> []" using il by simp
      have sd: "snd (DecodeRuneInString (drop i p)) = size"
        by (simp add: c(3) size_def)
      have hd: "(0x80::nat) \<le> of_char (p ! i)"
      proof (rule ccontr)
        assume "\<not> (0x80::nat) \<le> of_char (p ! i)"
        then have lt: "of_char (p ! i) < (0x80::nat)" by simp
        have "drop i p = p ! i # drop (Suc i) p" using il by (simp add: Cons_nth_drop_Suc)
        with Decode_ascii[OF lt, of "drop (Suc i) p"] sd s2 show False by simp
      qed
      from Decode_append[OF ne, of "concat rs"] sd s2
      have "DecodeRuneInString (drop i p @ concat rs) = DecodeRuneInString (drop i p)"
        by auto
      then have "snd (DecodeRuneInString (drop i p @ concat rs)) = size"
        by (simp add: sd)
      moreover have "i + size = length p" using c(2) by (simp add: i_def)
      ultimately show ?thesis unfolding tr using hd by (simp add: b(1))
    qed
    show ?thesis unfolding tp using b(1,2,4) by blast
  qed
qed

text \<open>The second byte loop of \<^verbatim>\<open>TrimSpace\<close>.\<close>

lemma TrimSpace_stop_spec:
  "\<exists>rs. s = TrimSpace_stop s @ concat rs \<and> list_all wsChunk rs
     \<and> (TrimSpace_stop s = []
         \<or> \<not> IsSpace (fst (DecodeLastRuneInString (TrimSpace_stop s))))"
proof (induction s rule: TrimSpace_stop.induct)
  case (1 s)
  show ?case
  proof (cases "s = []")
    case True
    have "\<exists>rs. ([]::string) = concat rs \<and> list_all wsChunk rs"
      by (rule exI[of _ "[]"]) simp
    with True show ?thesis by (simp add: TrimSpace_stop.simps)
  next
    case ne: False
    show ?thesis
    proof (cases "(0x80::nat) \<le> of_char (last s)")
      case True
      have "TrimSpace_stop s = TrimRightFunc s IsSpace"
        using ne True by (subst TrimSpace_stop.simps) (simp add: Let_def)
      with TrimRightFunc_spec[of s] show ?thesis by simp
    next
      case lt: False
      show ?thesis
      proof (cases "asciiSpace (of_char (last s))")
        case True
        have rec: "TrimSpace_stop s = TrimSpace_stop (butlast s)"
          using ne lt True by (subst TrimSpace_stop.simps) (simp add: Let_def)
        from "1.IH"[OF ne refl _ True] lt
        obtain rs where rs: "butlast s = TrimSpace_stop (butlast s) @ concat rs"
            "list_all wsChunk rs"
            "TrimSpace_stop (butlast s) = []
              \<or> \<not> IsSpace (fst (DecodeLastRuneInString (TrimSpace_stop (butlast s))))"
          by auto
        have w: "wsChunk [last s]" using lt True by (simp add: wsChunk_ascii)
        have "s = butlast s @ [last s]" using ne by simp
        with rs(1) have "s = TrimSpace_stop (butlast s) @ concat (rs @ [[last s]])"
          by (metis append.assoc append_Nil2 concat.simps(1) concat.simps(2) concat_append)
        moreover have "list_all wsChunk (rs @ [[last s]])" using w rs(2) by simp
        ultimately show ?thesis using rs(3) unfolding rec by blast
      next
        case False
        have st: "TrimSpace_stop s = s"
          using ne lt False by (subst TrimSpace_stop.simps) (simp add: Let_def)
        from DecodeLast_cases[OF ne] lt
        have "DecodeLastRuneInString s = (of_char (last s), 1)" by auto
        with ascii_not_space[of "last s"] lt False
        have "\<not> IsSpace (fst (DecodeLastRuneInString s))" by simp
        moreover have "s = s @ concat []" by simp
        ultimately have "s = s @ concat [] \<and> list_all wsChunk []
            \<and> (s = [] \<or> \<not> IsSpace (fst (DecodeLastRuneInString s)))"
          by simp
        then show ?thesis unfolding st by blast
      qed
    qed
  qed
qed

lemma not_space_prefix:
  assumes "T \<noteq> []" and "\<not> IsSpace (fst (DecodeRuneInString (T @ u)))"
  shows "\<not> IsSpace (fst (DecodeRuneInString T))"
  using Decode_append[OF assms(1), of u] assms(2) IsSpace_RuneError by auto

lemma TrimFunc_spec:
  "\<exists>ls rs. s = concat ls @ TrimFunc s IsSpace @ concat rs
     \<and> list_all wsChunk ls \<and> list_all wsChunk rs
     \<and> (TrimFunc s IsSpace = []
         \<or> (\<not> IsSpace (fst (DecodeRuneInString (TrimFunc s IsSpace)))
            \<and> \<not> IsSpace (fst (DecodeLastRuneInString (TrimFunc s IsSpace)))))"
proof -
  define t where "t = TrimLeftFunc s IsSpace"
  define T where "T = TrimRightFunc t IsSpace"
  from TrimLeftFunc_spec[of s]
  obtain ls where l: "s = concat ls @ t" "list_all wsChunk ls"
      "t = [] \<or> \<not> IsSpace (fst (DecodeRuneInString t))"
    unfolding t_def by blast
  from TrimRightFunc_spec[of t]
  obtain rs where r: "t = T @ concat rs" "list_all wsChunk rs"
      "T = [] \<or> \<not> IsSpace (fst (DecodeLastRuneInString T))"
    unfolding T_def by blast
  have f: "T = [] \<or> \<not> IsSpace (fst (DecodeRuneInString T))"
  proof (cases "T = []")
    case True
    then show ?thesis by simp
  next
    case False
    then have "t \<noteq> []" using r(1) by auto
    with l(3) have "\<not> IsSpace (fst (DecodeRuneInString (T @ concat rs)))"
      using r(1) by auto
    from not_space_prefix[OF False this] show ?thesis by simp
  qed
  have e: "TrimFunc s IsSpace = T" by (simp add: TrimFunc_def T_def t_def)
  have "s = concat ls @ T @ concat rs" using l(1) r(1) by simp
  with l(2) r(2,3) f show ?thesis unfolding e by blast
qed

lemma wsChunks_hd_ascii:
  assumes "list_all wsChunk rs" and "concat rs = c # cs" and "of_char c < (0x80::nat)"
  shows "IsSpace (of_char c)"
proof (cases rs)
  case Nil
  with assms(2) show ?thesis by simp
next
  case (Cons c1 rs')
  with assms(1) have w: "wsChunk c1" by simp
  from wsChunk_RuneStart[OF w] have "c1 \<noteq> []" by simp
  with assms(2) Cons obtain c1' where "c1 = c # c1'" by (cases c1) auto
  with w Decode_ascii[OF assms(3), of c1'] show ?thesis by (simp add: wsChunk_def)
qed

text \<open>
  \<^verbatim>\<open>strings.TrimSpace\<close>: the string is the result between two sequences of encoded
  whitespace code points, and the result neither starts nor ends with one.
\<close>

lemma TrimSpace_spec:
  "\<exists>ls rs. s = concat ls @ TrimSpace s @ concat rs
     \<and> list_all wsChunk ls \<and> list_all wsChunk rs
     \<and> (TrimSpace s = []
         \<or> (\<not> IsSpace (fst (DecodeRuneInString (TrimSpace s)))
            \<and> \<not> IsSpace (fst (DecodeLastRuneInString (TrimSpace s)))))"
proof (induction s)
  case Nil
  have "([]::string) = concat [] @ [] @ concat [] \<and> list_all wsChunk [] \<and> list_all wsChunk []"
    by simp
  then show ?case unfolding TrimSpace.simps by blast
next
  case (Cons c cs)
  show ?case
  proof (cases "(0x80::nat) \<le> of_char c")
    case True
    then have "TrimSpace (c # cs) = TrimFunc (c # cs) IsSpace" by simp
    with TrimFunc_spec[of "c # cs"] show ?thesis by simp
  next
    case lt: False
    then have lt': "of_char c < (0x80::nat)" by simp
    show ?thesis
    proof (cases "asciiSpace (of_char c)")
      case True
      have e: "TrimSpace (c # cs) = TrimSpace cs" using lt True by simp
      from Cons.IH obtain ls rs where i: "cs = concat ls @ TrimSpace cs @ concat rs"
          "list_all wsChunk ls" "list_all wsChunk rs"
          "TrimSpace cs = []
             \<or> (\<not> IsSpace (fst (DecodeRuneInString (TrimSpace cs)))
                \<and> \<not> IsSpace (fst (DecodeLastRuneInString (TrimSpace cs))))"
        by blast
      have "c # cs = concat ([c] # ls) @ TrimSpace cs @ concat rs"
        using i(1) by simp
      moreover have "list_all wsChunk ([c] # ls)"
        using i(2) wsChunk_ascii[OF lt' True] by simp
      ultimately show ?thesis using i(3,4) unfolding e by blast
    next
      case False
      have e: "TrimSpace (c # cs) = TrimSpace_stop (c # cs)" using lt False by simp
      define T where "T = TrimSpace_stop (c # cs)"
      from TrimSpace_stop_spec[of "c # cs"]
      obtain rs where r: "c # cs = T @ concat rs" "list_all wsChunk rs"
          "T = [] \<or> \<not> IsSpace (fst (DecodeLastRuneInString T))"
        unfolding T_def by blast
      have ns: "\<not> IsSpace (of_char c)" by (rule ascii_not_space[OF lt' False])
      have ne: "T \<noteq> []"
      proof
        assume "T = []"
        with r(1) have "concat rs = c # cs" by simp
        from wsChunks_hd_ascii[OF r(2) this lt'] ns show False by simp
      qed
      with r(1) obtain T' where T': "T = c # T'" by (cases T) auto
      have "\<not> IsSpace (fst (DecodeRuneInString T))"
        using ns by (simp add: T' Decode_ascii[OF lt'])
      moreover have "c # cs = concat [] @ T @ concat rs" using r(1) by simp
      moreover have "list_all wsChunk []" by simp
      ultimately show ?thesis using r(2,3) ne unfolding e T_def[symmetric] by blast
    qed
  qed
qed

text \<open>The error of the first invalid attribute ends the loop.\<close>

lemma validAttr_attrError: "validAttr x = (attrError x = None)"
proof (cases x)
  case (Pair key val)
  then show ?thesis by (cases val) simp_all
qed

lemma renderAttrs_loop_error:
  "attrError x = Some e \<Longrightarrow> renderAttrs_loop b (x # rest) = (b, Some e)"
proof (cases x)
  case (Pair key val)
  assume "attrError x = Some e"
  then show ?thesis
    by (cases val) (auto simp: Pair Let_def split: if_splits)
qed

section \<open>The claims\<close>

subsection \<open>C1: a failing child\<close>

text \<open>
  Claim C1: for an element with a non-empty tag name, if rendering a child fails,
  \<^verbatim>\<open>Element.Render\<close> returns that child's error to its caller.

  The code does not: after the opening tag, \<^verbatim>\<open>Render\<close> answers an error of
  \<^verbatim>\<open>renderChildren\<close> with \<^verbatim>\<open>return "", nil\<close>.  For
  \<^verbatim>\<open>Div().Add(P(KV{"x": nil}))\<close> the child \<^verbatim>\<open>P(KV{"x": nil})\<close> fails with the
  nil-value error, and the \<^verbatim>\<open>div\<close> returns the empty string and no error.  The
  branch for the empty tag name, a few lines above, returns the error: the same child
  under \<^verbatim>\<open>Empty()\<close> makes the wrapper fail.  (By \<open>Element_Render_no_child_error\<close>
  an element with a non-empty tag name and valid attributes never returns an error.)
\<close>

theorem Render_drops_child_error:
  "Node_Render (Elem (P [[(''x'', AnyNil)]])) = ([], Some (NilAttributeValue ''x''))
   \<and> Element_Render (fst (Add (Div []) [Elem (P [[(''x'', AnyNil)]])])) = ([], None)
   \<and> Element_Render (fst (Add (Empty []) [Elem (P [[(''x'', AnyNil)]])]))
       = ([], Some (NilAttributeValue ''x''))"
  by code_simp

subsection \<open>C9: the entry point\<close>

text \<open>
  Claim C9: for \<^verbatim>\<open>Render(writer, node)\<close>: if \<^verbatim>\<open>node.Render\<close> fails, nothing is
  written (the writer is left as it was, \<^verbatim>\<open>Write\<close> is not called) and that error is
  returned; if it succeeds, the whole rendered string is passed to one call of
  \<^verbatim>\<open>Write\<close>, and the error of that call is returned as it is.
\<close>

theorem Render_writes_after_success_only:
  "(\<forall>err. snd (Node_Render node) = Some err \<longrightarrow> Render Write w node = (w, Some err))
   \<and> (snd (Node_Render node) = None \<longrightarrow>
        Render Write w node
          = (fst (Write w (fst (Node_Render node))), snd (snd (Write w (fst (Node_Render node))))))"
  by (cases "Node_Render node") (auto simp: Render_def split: prod.splits option.splits)

text \<open>
  At \<^verbatim>\<open>Div(KV{"invalid": nil})\<close> with a buffer that holds \<open>x\<close>, and at
  \<^verbatim>\<open>Text("test")\<close> with the writer of \<^verbatim>\<open>render_test.go\<close> that always fails.
\<close>

theorem Render_writes_after_success_only_witness:
  "Render Buffer_Write ''x'' (Elem (Div [[(''invalid'', AnyNil)]]))
     = (''x'', Some (NilAttributeValue ''invalid''))
   \<and> Render errorWriter_Write () (Text ''test'')
     = (fst (errorWriter_Write () (fst (Node_Render (Text ''test'')))),
        snd (snd (errorWriter_Write () (fst (Node_Render (Text ''test''))))))
   \<and> snd (snd (errorWriter_Write () (fst (Node_Render (Text ''test'')))))
     = Some (OtherError ''write error'')"
proof -
  have a: "snd (Node_Render (Elem (Div [[(''invalid'', AnyNil)]])))
      = Some (NilAttributeValue ''invalid'')"
    by code_simp
  have b: "snd (Node_Render (Text ''test'')) = None"
    by code_simp
  have c: "snd (snd (errorWriter_Write () (fst (Node_Render (Text ''test'')))))
      = Some (OtherError ''write error'')"
    by (simp add: errorWriter_Write_def)
  from a Render_writes_after_success_only[of "Elem (Div [[(''invalid'', AnyNil)]])"
      Buffer_Write "''x''"]
  have 1: "Render Buffer_Write ''x'' (Elem (Div [[(''invalid'', AnyNil)]]))
     = (''x'', Some (NilAttributeValue ''invalid''))"
    by blast
  from b Render_writes_after_success_only[of "Text ''test''" errorWriter_Write "()"]
  have 2: "Render errorWriter_Write () (Text ''test'')
     = (fst (errorWriter_Write () (fst (Node_Render (Text ''test'')))),
        snd (snd (errorWriter_Write () (fst (Node_Render (Text ''test''))))))"
    by blast
  from 1 2 c show ?thesis by blast
qed

subsection \<open>C7: void elements\<close>

text \<open>
  Claim C7, as stated, for every element with the void flag set: \<^verbatim>\<open>Render\<close> emits
  only the opening tag and never any children.  It fails for the transparent wrapper:
  \<^verbatim>\<open>Render\<close> tests the empty tag name before the void flag, so
  \<^verbatim>\<open>Element{Tag: "", IsVoid: true, Children: []Node{Text("a")}}\<close> renders its child.
\<close>

theorem void_wrapper_renders_children:
  "IsVoid (Element [] True [] [Text ''a''])
   \<and> Element_Render (Element [] True [] [Text ''a'']) = (''a'', None)"
  by code_simp

text \<open>
  Claim C7, amended: for every element with the void flag set and a non-empty tag
  name, the result of \<^verbatim>\<open>Render\<close> does not depend on the children; with valid
  attributes it is the opening tag alone, with no closing tag and no children.
  \<^verbatim>\<open>Add\<close> on every element with the void flag set, whatever its tag name, leaves
  the element as it was and returns it.
\<close>

theorem void_element_opening_tag_only:
  "(tag \<noteq> [] \<longrightarrow>
      Element_Render (Element tag True attrs cs) = Element_Render (Element tag True attrs []))
   \<and> (tag \<noteq> [] \<and> list_all validAttr attrs \<longrightarrow>
         Element_Render (Element tag True attrs cs)
           = (''<'' @ tag @ concat (map attrText (sort_key fst attrs)) @ ''>'', None))
   \<and> Add (Element tag True attrs cs) new
         = (Element tag True attrs cs, Elem (Element tag True attrs cs))"
proof -
  have 1: "Element_Render (Element tag True attrs cs) = Element_Render (Element tag True attrs [])"
    if "tag \<noteq> []"
    using that by simp
  have 2: "Element_Render (Element tag True attrs cs)
      = (''<'' @ tag @ concat (map attrText (sort_key fst attrs)) @ ''>'', None)"
    if "tag \<noteq> []" and "list_all validAttr attrs"
    unfolding Element_Render_valid[OF that] by simp
  have 3: "Add (Element tag True attrs cs) new
      = (Element tag True attrs cs, Elem (Element tag True attrs cs))"
    by (simp add: Let_def)
  from 1 2 3 show ?thesis by blast
qed

text \<open>
  At \<^verbatim>\<open>br\<close>, with a child put into the \<^verbatim>\<open>Children\<close> field and with a child
  passed to \<^verbatim>\<open>Add\<close>, and at \<^verbatim>\<open>Add\<close> on the void wrapper above.
\<close>

theorem void_element_opening_tag_only_witness:
  "Element_Render (Element ''br'' True [] [Text ''ignored'']) = (''<br>'', None)
   \<and> Add (Element ''br'' True [] []) [Text ''should not be added'']
       = (Element ''br'' True [] [], Elem (Element ''br'' True [] []))
   \<and> Add (Element [] True [] [Text ''a'']) [Text ''b'']
       = (Element [] True [] [Text ''a''], Elem (Element [] True [] [Text ''a'']))"
proof -
  have t: "''br'' \<noteq> []" by simp
  have v: "list_all validAttr []" by simp
  have e: "(''<'' @ ''br'' @ concat (map attrText (sort_key fst [])) @ ''>'', None)
      = (''<br>'', None :: error option)"
    by simp
  from void_element_opening_tag_only[of "''br''" "[]" "[Text ''ignored'']" "[]"] t v
  have 1: "Element_Render (Element ''br'' True [] [Text ''ignored''])
      = (''<'' @ ''br'' @ concat (map attrText (sort_key fst [])) @ ''>'', None)"
    by blast
  from void_element_opening_tag_only[of "''br''" "[]" "[]" "[Text ''should not be added'']"]
  have 2: "Add (Element ''br'' True [] []) [Text ''should not be added'']
       = (Element ''br'' True [] [], Elem (Element ''br'' True [] []))"
    by blast
  from void_element_opening_tag_only[of "[]" "[]" "[Text ''a'']" "[Text ''b'']"]
  have 3: "Add (Element [] True [] [Text ''a'']) [Text ''b'']
       = (Element [] True [] [Text ''a''], Elem (Element [] True [] [Text ''a'']))"
    by blast
  from 1 2 3 e show ?thesis by simp
qed

subsection \<open>C2: attributes of a transparent wrapper\<close>

text \<open>
  Claim C2, as stated: a transparent wrapper that carries an invalid attribute makes
  \<^verbatim>\<open>Render\<close> report the validation error.  It fails: the branch for the empty tag
  name renders the children and returns, and \<^verbatim>\<open>renderAttrs\<close>, the only place that
  validates, is not called.  A wrapper with a blank key, a nil value and an integer
  value renders without an error.
\<close>

theorem wrapper_invalid_attrs_render:
  "Element_Render (Empty [[(''   '', AnyString ''v''), (''a'', AnyNil), (''b'', AnyOther ''int'')]])
     = ([], None)
   \<and> Element_Render (fst (Add (Empty [[(''n'', AnyOther ''int'')]]) [Text ''a'', Text ''b'']))
     = (''ab'', None)"
  by code_simp

text \<open>
  Claim C2, amended: \<^verbatim>\<open>Render\<close> of a transparent wrapper does not look at the
  attributes: the result is that of the same wrapper without attributes.  An invalid
  attribute makes \<^verbatim>\<open>Render\<close> fail, with the empty string, on every element with a
  non-empty tag name.
\<close>

theorem wrapper_attrs_not_validated:
  "Element_Render (Element [] isVoid attrs cs) = Element_Render (Element [] isVoid [] cs)
   \<and> (tag \<noteq> [] \<and> \<not> list_all validAttr attrs \<longrightarrow>
        (\<exists>err. Element_Render (Element tag isVoid attrs cs) = ([], Some err)))"
proof -
  have "\<exists>err. Element_Render (Element tag isVoid attrs cs) = ([], Some err)"
    if t: "tag \<noteq> []" and inv: "\<not> list_all validAttr attrs"
  proof -
    from inv have "\<not> list_all validAttr (sort_key fst attrs)"
      by (simp add: list_all_sort_key)
    from renderAttrs_loop_invalid[OF this, of "''<'' @ tag"]
    obtain b' err where "renderAttrs (''<'' @ tag) attrs = (b', Some err)"
      by (auto simp: renderAttrs_def)
    with t show ?thesis by simp
  qed
  then show ?thesis by simp
qed

text \<open>
  At the attribute \<^verbatim>\<open>"a": nil\<close>, on a wrapper and on a \<^verbatim>\<open>div\<close>.
\<close>

theorem wrapper_attrs_not_validated_witness:
  "Element_Render (Element [] False [(''a'', AnyNil)] [Text ''x''])
     = Element_Render (Element [] False [] [Text ''x''])
   \<and> (\<exists>err. Element_Render (Element ''div'' False [(''a'', AnyNil)] [Text ''x'']) = ([], Some err))"
proof -
  have h: "''div'' \<noteq> [] \<and> \<not> list_all validAttr [(''a'', AnyNil)]" by simp
  show ?thesis
    using wrapper_attrs_not_validated[of False "[(''a'', AnyNil)]" "[Text ''x'']" "''div''"] h
    by blast
qed

subsection \<open>C8: an attribute value of another type\<close>

text \<open>
  Claim C8, as stated: an element with a non-empty tag name and an attribute whose
  value is neither a string nor a boolean fails with \<open>InvalidAttributeType\<close>.  The
  loop stops at the first invalid attribute in key order, so with
  \<^verbatim>\<open>Div(KV{"b": 123, "a": nil})\<close> the error is the nil-value error of \<^verbatim>\<open>a\<close>.
\<close>

theorem first_invalid_attr_decides_error:
  "Element_Render (Div [[(''b'', AnyOther ''int''), (''a'', AnyNil)]])
     = ([], Some (NilAttributeValue ''a''))"
  by code_simp

text \<open>
  Claim C8, amended: such an element always fails, and the string returned is empty.
  The error is that of the first invalid attribute in key order (the attribute \<open>x\<close>
  of the sorted slice with only valid attributes before it); it is
  \<open>InvalidAttributeType\<close>, for the trimmed key, when the attributes before the one of
  the other type are valid and its own trimmed key is not empty.
\<close>

theorem invalid_type_attr_fails:
  assumes "tag \<noteq> []" and "(key, AnyOther T) \<in> set attrs"
  shows "(\<exists>pre x post e. sort_key fst attrs = pre @ x # post \<and> list_all validAttr pre
            \<and> attrError x = Some e
            \<and> Element_Render (Element tag isVoid attrs cs) = ([], Some e))
    \<and> (\<forall>pre x post e. sort_key fst attrs = pre @ x # post \<and> list_all validAttr pre
            \<and> attrError x = Some e
          \<longrightarrow> Element_Render (Element tag isVoid attrs cs) = ([], Some e))
    \<and> (\<forall>pre post. sort_key fst attrs = pre @ (key, AnyOther T) # post
            \<and> list_all validAttr pre \<and> TrimSpace key \<noteq> []
          \<longrightarrow> Element_Render (Element tag isVoid attrs cs)
                = ([], Some (InvalidAttributeType T (TrimSpace key))))"
proof -
  have u: "Element_Render (Element tag isVoid attrs cs) = ([], Some e)"
    if s: "sort_key fst attrs = pre @ x # post" and v: "list_all validAttr pre"
      and a: "attrError x = Some e"
    for pre x post e
  proof -
    have "renderAttrs (''<'' @ tag) attrs
        = ((''<'' @ tag) @ concat (map attrText pre), Some e)"
      unfolding renderAttrs_def s renderAttrs_loop_first_invalid[OF v]
      by (rule renderAttrs_loop_error[OF a])
    with assms(1) show ?thesis by simp
  qed
  have "\<exists>x\<in>set (sort_key fst attrs). \<not> validAttr x"
    using assms(2) by (auto intro!: bexI[of _ "(key, AnyOther T)"])
  from split_list_first_prop[OF this]
  obtain pre x post where f: "sort_key fst attrs = pre @ x # post" "\<not> validAttr x"
      "\<forall>y\<in>set pre. \<not> \<not> validAttr y"
    by blast
  from f(3) have pv: "list_all validAttr pre" by (simp add: list_all_iff)
  from f(2) obtain e where e: "attrError x = Some e"
    by (auto simp: validAttr_attrError)
  from u[OF f(1) pv e] f(1) pv e
  have 1: "\<exists>pre x post e. sort_key fst attrs = pre @ x # post \<and> list_all validAttr pre
            \<and> attrError x = Some e
            \<and> Element_Render (Element tag isVoid attrs cs) = ([], Some e)"
    by blast
  have 3: "Element_Render (Element tag isVoid attrs cs)
      = ([], Some (InvalidAttributeType T (TrimSpace key)))"
    if "sort_key fst attrs = pre @ (key, AnyOther T) # post"
      and "list_all validAttr pre" and "TrimSpace key \<noteq> []"
    for pre post
    using u[OF that(1,2), of "InvalidAttributeType T (TrimSpace key)"] that(3) by simp
  from 1 u 3 show ?thesis by blast
qed

text \<open>
  At \<^verbatim>\<open>KV{"test": 123, "class": "c"}\<close> and at \<^verbatim>\<open>KV{"test": 123, "  ": "c"}\<close>, where
  the blank key comes first, on a \<^verbatim>\<open>div\<close> with a child.
\<close>

theorem invalid_type_attr_fails_witness:
  "Element_Render (Element ''div'' False [(''test'', AnyOther ''int''), (''class'', AnyString ''c'')] [Text ''x''])
       = ([], Some (InvalidAttributeType ''int'' (TrimSpace ''test'')))
   \<and> TrimSpace ''test'' = ''test''
   \<and> Element_Render (Element ''div'' False [(''test'', AnyOther ''int''), (''  '', AnyString ''c'')] [Text ''x''])
       = ([], Some EmptyAttributeKey)"
proof -
  have t: "''div'' \<noteq> []" by simp
  have m: "(''test'', AnyOther ''int'') \<in> set [(''test'', AnyOther ''int''), (''class'', AnyString ''c'')]"
    by simp
  have m2: "(''test'', AnyOther ''int'') \<in> set [(''test'', AnyOther ''int''), (''  '', AnyString ''c'')]"
    by simp
  have s: "sort_key fst [(''test'', AnyOther ''int''), (''class'', AnyString ''c'')]
      = [(''class'', AnyString ''c'')] @ (''test'', AnyOther ''int'') # []"
    by code_simp
  have s2: "sort_key fst [(''test'', AnyOther ''int''), (''  '', AnyString ''c'')]
      = [] @ (''  '', AnyString ''c'') # [(''test'', AnyOther ''int'')]"
    by code_simp
  have v: "list_all validAttr [(''class'', AnyString ''c'')]" by code_simp
  have v2: "list_all validAttr []" by simp
  have k: "TrimSpace ''test'' \<noteq> []" by code_simp
  have k': "TrimSpace ''test'' = ''test''" by code_simp
  have a2: "attrError (''  '', AnyString ''c'') = Some EmptyAttributeKey" by code_simp
  from invalid_type_attr_fails[OF t m, of False "[Text ''x'']"] s v k
  have 1: "Element_Render (Element ''div'' False [(''test'', AnyOther ''int''), (''class'', AnyString ''c'')] [Text ''x''])
       = ([], Some (InvalidAttributeType ''int'' (TrimSpace ''test'')))"
    by blast
  from invalid_type_attr_fails[OF t m2, of False "[Text ''x'']"] s2 v2 a2
  have 2: "Element_Render (Element ''div'' False [(''test'', AnyOther ''int''), (''  '', AnyString ''c'')] [Text ''x''])
       = ([], Some EmptyAttributeKey)"
    by blast
  from 1 2 k' show ?thesis by blast
qed

subsection \<open>C4: the order of the attributes\<close>

text \<open>
  Claim C4: for an element with a non-empty tag name whose attributes are all valid,
  \<^verbatim>\<open>Render\<close> emits the attributes in ascending order of their keys (the keys of the
  map, compared as byte strings), so the output does not depend on the order in which
  the map hands out its entries.  The children are taken to render without an error.
\<close>

theorem attrs_in_ascending_key_order:
  assumes "tag \<noteq> []" and "list_all validAttr attrs" and "distinct (map fst attrs)"
    and "snd (renderChildren [] cs) = None"
  shows "(\<exists>ys. mset ys = mset attrs \<and> sorted (map fst ys)
           \<and> Element_Render (Element tag isVoid attrs cs)
             = (''<'' @ tag @ concat (map attrText ys) @ ''>''
                 @ (if isVoid then [] else fst (renderChildren [] cs) @ ''</'' @ tag @ ''>''),
                None))
    \<and> (\<forall>attrs'. mset attrs' = mset attrs \<longrightarrow>
          Element_Render (Element tag isVoid attrs' cs)
            = Element_Render (Element tag isVoid attrs cs))"
proof -
  have 1: "Element_Render (Element tag isVoid attrs cs)
      = (''<'' @ tag @ concat (map attrText (sort_key fst attrs)) @ ''>''
           @ (if isVoid then [] else fst (renderChildren [] cs) @ ''</'' @ tag @ ''>''), None)"
    unfolding Element_Render_valid[OF assms(1,2)] using assms(4) by simp
  have 2: "Element_Render (Element tag isVoid attrs' cs)
      = Element_Render (Element tag isVoid attrs cs)"
    if "mset attrs' = mset attrs" for attrs'
  proof -
    have "renderAttrs (''<'' @ tag) attrs' = renderAttrs (''<'' @ tag) attrs"
      unfolding renderAttrs_def sort_key_perm_eq[OF assms(3) that] ..
    then show ?thesis by simp
  qed
  have "mset (sort_key fst attrs) = mset attrs \<and> sorted (map fst (sort_key fst attrs))"
    by simp
  with 1 2 show ?thesis by blast
qed

text \<open>
  At the specification's example: a \<^verbatim>\<open>div\<close> with \<^verbatim>\<open>{"class":"a","id":"b"}\<close>, the
  entries in either order.
\<close>

theorem attrs_in_ascending_key_order_witness:
  \<open>Element_Render (Element ''div'' False [(''id'', AnyString ''b''), (''class'', AnyString ''a'')] [])
     = (''<div class="a" id="b"></div>'', None)
   \<and> Element_Render (Element ''div'' False [(''class'', AnyString ''a''), (''id'', AnyString ''b'')] [])
     = Element_Render (Element ''div'' False [(''id'', AnyString ''b''), (''class'', AnyString ''a'')] [])\<close>
proof -
  have t: "''div'' \<noteq> []" by simp
  have v: "list_all validAttr [(''id'', AnyString ''b''), (''class'', AnyString ''a'')]"
    by code_simp
  have d: "distinct (map fst [(''id'', AnyString ''b''), (''class'', AnyString ''a'')])"
    by simp
  have c: "snd (renderChildren [] []) = None" by simp
  have m: "mset [(''class'', AnyString ''a''), (''id'', AnyString ''b'')]
      = mset [(''id'', AnyString ''b''), (''class'', AnyString ''a'')]"
    by simp
  from attrs_in_ascending_key_order[OF t v d c, of False] m
  have 2: "Element_Render (Element ''div'' False [(''class'', AnyString ''a''), (''id'', AnyString ''b'')] [])
     = Element_Render (Element ''div'' False [(''id'', AnyString ''b''), (''class'', AnyString ''a'')] [])"
    by blast
  have 1: \<open>Element_Render (Element ''div'' False [(''id'', AnyString ''b''), (''class'', AnyString ''a'')] [])
     = (''<div class="a" id="b"></div>'', None)\<close>
    by code_simp
  from 1 2 show ?thesis by blast
qed

subsection \<open>C5: the three forms of an attribute\<close>

text \<open>
  Claim C5: a valid attribute, wherever it stands among the other (valid) attributes
  of a rendered element, is left out when its value is the boolean \<open>false\<close>, is the
  bare name when its value is \<open>true\<close>, and is \<^verbatim>\<open>name="escaped-value"\<close> when its value
  is a string, the empty string included.  \<open>pre\<close> and \<open>post\<close> are the attributes
  before and after it in key order.
\<close>

theorem attr_value_forms:
  assumes "tag \<noteq> []" and "list_all validAttr pre" and "list_all validAttr post"
    and "TrimSpace key \<noteq> []" and "sort_key fst attrs = pre @ (key, val) # post"
  shows "(val = AnyBool False \<longrightarrow>
           Element_Render (Element tag False attrs [])
             = (''<'' @ tag @ concat (map attrText pre) @ concat (map attrText post)
                 @ ''></'' @ tag @ ''>'', None))
    \<and> (val = AnyBool True \<longrightarrow>
           Element_Render (Element tag False attrs [])
             = (''<'' @ tag @ concat (map attrText pre) @ '' '' @ TrimSpace key
                 @ concat (map attrText post) @ ''></'' @ tag @ ''>'', None))
    \<and> (\<forall>v. val = AnyString v \<longrightarrow>
           Element_Render (Element tag False attrs [])
             = (''<'' @ tag @ concat (map attrText pre)
                 @ '' '' @ TrimSpace key @ ''='' @ [CHR 0x22] @ EscapeString v @ [CHR 0x22]
                 @ concat (map attrText post) @ ''></'' @ tag @ ''>'', None))"
proof -
  have r: "Element_Render (Element tag False attrs [])
      = (''<'' @ tag @ concat (map attrText pre) @ attrText (key, val)
           @ concat (map attrText post) @ ''></'' @ tag @ ''>'', None)"
    if "validAttr (key, val)"
  proof -
    have "list_all validAttr (sort_key fst attrs)"
      unfolding assms(5) using assms(2,3) that by simp
    then have "list_all validAttr attrs" by (simp add: list_all_sort_key)
    from Element_Render_valid[OF assms(1) this, of False "[]"] show ?thesis
      by (simp add: assms(5))
  qed
  have 1: "val = AnyBool False \<longrightarrow> Element_Render (Element tag False attrs [])
             = (''<'' @ tag @ concat (map attrText pre) @ concat (map attrText post)
                 @ ''></'' @ tag @ ''>'', None)"
    using r assms(4) by auto
  have 2: "val = AnyBool True \<longrightarrow> Element_Render (Element tag False attrs [])
             = (''<'' @ tag @ concat (map attrText pre) @ '' '' @ TrimSpace key
                 @ concat (map attrText post) @ ''></'' @ tag @ ''>'', None)"
    using r assms(4) by auto
  have 3: "\<forall>v. val = AnyString v \<longrightarrow> Element_Render (Element tag False attrs [])
             = (''<'' @ tag @ concat (map attrText pre)
                 @ '' '' @ TrimSpace key @ ''='' @ [CHR 0x22] @ EscapeString v @ [CHR 0x22]
                 @ concat (map attrText post) @ ''></'' @ tag @ ''>'', None)"
    using r assms(4) by auto
  from 1 2 3 show ?thesis by blast
qed

text \<open>
  At three cases of the package's tests: \<^verbatim>\<open>hidden\<close> false and true beside a
  \<^verbatim>\<open>class\<close>, and an empty \<^verbatim>\<open>alt\<close> beside a value that needs escaping.
\<close>

theorem attr_value_forms_witness:
  \<open>Element_Render (Div [[(''hidden'', AnyBool False), (''class'', AnyString ''test'')]])
     = (''<div class="test"></div>'', None)
   \<and> Element_Render (Div [[(''hidden'', AnyBool True), (''class'', AnyString ''test'')]])
     = (''<div class="test" hidden></div>'', None)
   \<and> Element_Render (Div [[(''data-value'', AnyString ''<script>''), (''alt'', AnyString [])]])
     = (''<div alt="" data-value="&lt;script&gt;"></div>'', None)\<close>
proof -
  have t: "''div'' \<noteq> []" by simp
  have n: "list_all validAttr []" by simp
  have c: "list_all validAttr [(''class'', AnyString ''test'')]" by code_simp
  have dv: "list_all validAttr [(''data-value'', AnyString ''<script>'')]" by code_simp
  have kh: "TrimSpace ''hidden'' \<noteq> []" by code_simp
  have ka: "TrimSpace ''alt'' \<noteq> []" by code_simp
  have d1: "Div [[(''hidden'', AnyBool False), (''class'', AnyString ''test'')]]
      = Element ''div'' False [(''hidden'', AnyBool False), (''class'', AnyString ''test'')] []"
    by (simp add: Div_def newElement_def)
  have d2: "Div [[(''hidden'', AnyBool True), (''class'', AnyString ''test'')]]
      = Element ''div'' False [(''hidden'', AnyBool True), (''class'', AnyString ''test'')] []"
    by (simp add: Div_def newElement_def)
  have d3: "Div [[(''data-value'', AnyString ''<script>''), (''alt'', AnyString [])]]
      = Element ''div'' False [(''data-value'', AnyString ''<script>''), (''alt'', AnyString [])] []"
    by (simp add: Div_def newElement_def)
  have s1: "sort_key fst [(''hidden'', AnyBool False), (''class'', AnyString ''test'')]
      = [(''class'', AnyString ''test'')] @ (''hidden'', AnyBool False) # []"
    by code_simp
  have s2: "sort_key fst [(''hidden'', AnyBool True), (''class'', AnyString ''test'')]
      = [(''class'', AnyString ''test'')] @ (''hidden'', AnyBool True) # []"
    by code_simp
  have s3: "sort_key fst [(''data-value'', AnyString ''<script>''), (''alt'', AnyString [])]
      = [] @ (''alt'', AnyString []) # [(''data-value'', AnyString ''<script>'')]"
    by code_simp
  from attr_value_forms[OF t c n kh s1]
  have "Element_Render (Element ''div'' False [(''hidden'', AnyBool False), (''class'', AnyString ''test'')] [])
      = (''<'' @ ''div'' @ concat (map attrText [(''class'', AnyString ''test'')])
          @ concat (map attrText []) @ ''></'' @ ''div'' @ ''>'', None)"
    by blast
  also have \<open>\<dots> = (''<div class="test"></div>'', None)\<close>
    by code_simp
  finally have 1: \<open>Element_Render (Div [[(''hidden'', AnyBool False), (''class'', AnyString ''test'')]])
     = (''<div class="test"></div>'', None)\<close>
    unfolding d1 .
  from attr_value_forms[OF t c n kh s2]
  have "Element_Render (Element ''div'' False [(''hidden'', AnyBool True), (''class'', AnyString ''test'')] [])
      = (''<'' @ ''div'' @ concat (map attrText [(''class'', AnyString ''test'')])
          @ '' '' @ TrimSpace ''hidden''
          @ concat (map attrText []) @ ''></'' @ ''div'' @ ''>'', None)"
    by blast
  also have \<open>\<dots> = (''<div class="test" hidden></div>'', None)\<close>
    by code_simp
  finally have 2: \<open>Element_Render (Div [[(''hidden'', AnyBool True), (''class'', AnyString ''test'')]])
     = (''<div class="test" hidden></div>'', None)\<close>
    unfolding d2 .
  from attr_value_forms[OF t n dv ka s3]
  have "Element_Render (Element ''div'' False [(''data-value'', AnyString ''<script>''), (''alt'', AnyString [])] [])
      = (''<'' @ ''div'' @ concat (map attrText [])
          @ '' '' @ TrimSpace ''alt'' @ ''='' @ [CHR 0x22] @ EscapeString [] @ [CHR 0x22]
          @ concat (map attrText [(''data-value'', AnyString ''<script>'')])
          @ ''></'' @ ''div'' @ ''>'', None)"
    by blast
  also have \<open>\<dots> = (''<div alt="" data-value="&lt;script&gt;"></div>'', None)\<close>
    by code_simp
  finally have 3: \<open>Element_Render (Div [[(''data-value'', AnyString ''<script>''), (''alt'', AnyString [])]])
     = (''<div alt="" data-value="&lt;script&gt;"></div>'', None)\<close>
    unfolding d3 .
  from 1 2 3 show ?thesis by blast
qed

subsection \<open>C10: the key is trimmed\<close>

text \<open>
  Claim C10: a valid attribute, wherever it stands among the other (valid) attributes
  of a rendered element, is rendered under the trimmed key
  \<^verbatim>\<open>strings.TrimSpace(key)\<close>, not under the key as supplied.  For every key, ASCII
  or not, the key is its trimmed key between two sequences of encoded whitespace code
  points, and the trimmed key neither starts nor ends with a whitespace code point;
  for a key of ASCII bytes it is the key without its leading and trailing ASCII
  whitespace.  \<open>pre\<close> and \<open>post\<close> are the attributes before and after it in key order; the
  children are taken to render without an error.
\<close>

theorem attr_key_rendered_trimmed:
  assumes "tag \<noteq> []" and "list_all validAttr pre" and "list_all validAttr post"
    and "TrimSpace key \<noteq> []" and "sort_key fst attrs = pre @ (key, val) # post"
    and "snd (renderChildren [] cs) = None"
  shows "(\<forall>v. val = AnyString v \<longrightarrow>
           Element_Render (Element tag isVoid attrs cs)
             = (''<'' @ tag @ concat (map attrText pre)
                 @ '' '' @ TrimSpace key @ ''='' @ [CHR 0x22] @ EscapeString v @ [CHR 0x22]
                 @ concat (map attrText post) @ ''>''
                 @ (if isVoid then [] else fst (renderChildren [] cs) @ ''</'' @ tag @ ''>''),
                None))
    \<and> (val = AnyBool True \<longrightarrow>
           Element_Render (Element tag isVoid attrs cs)
             = (''<'' @ tag @ concat (map attrText pre) @ '' '' @ TrimSpace key
                 @ concat (map attrText post) @ ''>''
                 @ (if isVoid then [] else fst (renderChildren [] cs) @ ''</'' @ tag @ ''>''),
                None))
    \<and> (\<exists>ls rs. key = concat ls @ TrimSpace key @ concat rs
           \<and> list_all wsChunk ls \<and> list_all wsChunk rs)
    \<and> \<not> IsSpace (fst (DecodeRuneInString (TrimSpace key)))
    \<and> \<not> IsSpace (fst (DecodeLastRuneInString (TrimSpace key)))
    \<and> (list_all (\<lambda>c. of_char c < (0x80::nat)) key \<longrightarrow>
         TrimSpace key = rev (dropWhile (\<lambda>c. asciiSpace (of_char c))
                           (rev (dropWhile (\<lambda>c. asciiSpace (of_char c)) key))))"
proof -
  have r: "Element_Render (Element tag isVoid attrs cs)
      = (''<'' @ tag @ concat (map attrText pre) @ attrText (key, val)
           @ concat (map attrText post) @ ''>''
           @ (if isVoid then [] else fst (renderChildren [] cs) @ ''</'' @ tag @ ''>''), None)"
    if "validAttr (key, val)"
  proof -
    have "list_all validAttr (sort_key fst attrs)"
      unfolding assms(5) using assms(2,3) that by simp
    then have "list_all validAttr attrs" by (simp add: list_all_sort_key)
    from Element_Render_valid[OF assms(1) this, of isVoid cs] assms(6) show ?thesis
      by (simp add: assms(5))
  qed
  have 1: "\<forall>v. val = AnyString v \<longrightarrow>
           Element_Render (Element tag isVoid attrs cs)
             = (''<'' @ tag @ concat (map attrText pre)
                 @ '' '' @ TrimSpace key @ ''='' @ [CHR 0x22] @ EscapeString v @ [CHR 0x22]
                 @ concat (map attrText post) @ ''>''
                 @ (if isVoid then [] else fst (renderChildren [] cs) @ ''</'' @ tag @ ''>''),
                None)"
    using r assms(4) by auto
  have 2: "val = AnyBool True \<longrightarrow>
           Element_Render (Element tag isVoid attrs cs)
             = (''<'' @ tag @ concat (map attrText pre) @ '' '' @ TrimSpace key
                 @ concat (map attrText post) @ ''>''
                 @ (if isVoid then [] else fst (renderChildren [] cs) @ ''</'' @ tag @ ''>''),
                None)"
    using r assms(4) by auto
  from TrimSpace_spec[of key] assms(4)
  have 3: "(\<exists>ls rs. key = concat ls @ TrimSpace key @ concat rs
           \<and> list_all wsChunk ls \<and> list_all wsChunk rs)
    \<and> \<not> IsSpace (fst (DecodeRuneInString (TrimSpace key)))
    \<and> \<not> IsSpace (fst (DecodeLastRuneInString (TrimSpace key)))"
    by blast
  from 1 2 3 TrimSpace_ascii[of key] show ?thesis by blast
qed

text \<open>
  At the key \<^verbatim>\<open>" class "\<close> beside an \<^verbatim>\<open>id\<close>, at a key with a no-break space
  (U+00A0, bytes C2 A0) on each side of \<^verbatim>\<open>name\<close>, and at a key with a non-ASCII
  letter (U+00E9, bytes C3 A9) between spaces.
\<close>

theorem attr_key_rendered_trimmed_witness:
  \<open>Element_Render (Element ''div'' False [(''id'', AnyString ''x''), ('' class '', AnyString ''a'')] [])
     = (''<div class="a" id="x"></div>'', None)
   \<and> Element_Render
         (Element ''input'' True
            [([CHR 0xC2, CHR 0xA0] @ ''name'' @ [CHR 0xC2, CHR 0xA0], AnyBool True)] [])
     = (''<input name>'', None)
   \<and> TrimSpace ([CHR 0xC2, CHR 0xA0] @ ''name'' @ [CHR 0xC2, CHR 0xA0]) = ''name''
   \<and> TrimSpace ('' cl'' @ [CHR 0xC3, CHR 0xA9] @ ''  '') = ''cl'' @ [CHR 0xC3, CHR 0xA9]\<close>
proof -
  have t: "''div'' \<noteq> []" by simp
  have t2: "''input'' \<noteq> []" by simp
  have n: "list_all validAttr []" by simp
  have i: "list_all validAttr [(''id'', AnyString ''x'')]" by code_simp
  have k: "TrimSpace '' class '' \<noteq> []" by code_simp
  have k2: "TrimSpace ([CHR 0xC2, CHR 0xA0] @ ''name'' @ [CHR 0xC2, CHR 0xA0]) \<noteq> []"
    by code_simp
  have s1: "sort_key fst [(''id'', AnyString ''x''), ('' class '', AnyString ''a'')]
      = [] @ ('' class '', AnyString ''a'') # [(''id'', AnyString ''x'')]"
    by code_simp
  have s2: "sort_key fst [([CHR 0xC2, CHR 0xA0] @ ''name'' @ [CHR 0xC2, CHR 0xA0], AnyBool True)]
      = [] @ ([CHR 0xC2, CHR 0xA0] @ ''name'' @ [CHR 0xC2, CHR 0xA0], AnyBool True) # []"
    by simp
  have c: "snd (renderChildren [] []) = None" by simp
  from attr_key_rendered_trimmed[OF t n i k s1 c, of False]
  have "Element_Render (Element ''div'' False [(''id'', AnyString ''x''), ('' class '', AnyString ''a'')] [])
      = (''<'' @ ''div'' @ concat (map attrText [])
           @ '' '' @ TrimSpace '' class '' @ ''='' @ [CHR 0x22] @ EscapeString ''a'' @ [CHR 0x22]
           @ concat (map attrText [(''id'', AnyString ''x'')]) @ ''>''
           @ (if False then [] else fst (renderChildren [] []) @ ''</'' @ ''div'' @ ''>''),
          None)"
    by blast
  also have \<open>\<dots> = (''<div class="a" id="x"></div>'', None)\<close>
    by code_simp
  finally have 1: \<open>Element_Render (Element ''div'' False [(''id'', AnyString ''x''), ('' class '', AnyString ''a'')] [])
     = (''<div class="a" id="x"></div>'', None)\<close> .
  from attr_key_rendered_trimmed[OF t2 n n k2 s2 c, of True]
  have "Element_Render
         (Element ''input'' True
            [([CHR 0xC2, CHR 0xA0] @ ''name'' @ [CHR 0xC2, CHR 0xA0], AnyBool True)] [])
      = (''<'' @ ''input'' @ concat (map attrText [])
           @ '' '' @ TrimSpace ([CHR 0xC2, CHR 0xA0] @ ''name'' @ [CHR 0xC2, CHR 0xA0])
           @ concat (map attrText []) @ ''>''
           @ (if True then [] else fst (renderChildren [] []) @ ''</'' @ ''input'' @ ''>''),
          None)"
    by blast
  also have "\<dots> = (''<input name>'', None)"
    by code_simp
  finally have 2: "Element_Render
         (Element ''input'' True
            [([CHR 0xC2, CHR 0xA0] @ ''name'' @ [CHR 0xC2, CHR 0xA0], AnyBool True)] [])
     = (''<input name>'', None)" .
  have 3: "TrimSpace ([CHR 0xC2, CHR 0xA0] @ ''name'' @ [CHR 0xC2, CHR 0xA0]) = ''name''"
    by code_simp
  have 4: "TrimSpace ('' cl'' @ [CHR 0xC3, CHR 0xA9] @ ''  '') = ''cl'' @ [CHR 0xC3, CHR 0xA9]"
    by code_simp
  from 1 2 3 4 show ?thesis by blast
qed

subsection \<open>C3: whitespace at the two ends of a text\<close>

text \<open>
  Claim C3: \<^verbatim>\<open>Text.Render\<close> classifies the first and the last character of the
  string as whitespace for any whitespace code point, multi-byte ones included, and
  restores one space where the string started or ended with whitespace.

  The code classifies the first and the last \<^emph>\<open>byte\<close>:
  \<^verbatim>\<open>unicode.IsSpace(rune(s[0]))\<close> and \<^verbatim>\<open>unicode.IsSpace(rune(s[len(s)-1]))\<close>, while the
  collapsing step, \<^verbatim>\<open>strings.FieldsFunc(s, unicode.IsSpace)\<close>, decodes code points.
  The text U+3000 (ideographic space, bytes E3 80 80) followed by \<open>a\<close> starts with a
  whitespace code point and renders as \<open>a\<close>, with no space restored.  The text \<open>a\<close>
  followed by U+00E0 (bytes C3 A0) does not end with whitespace and renders with a
  space appended, because the byte A0 read as a code point is the no-break space.
\<close>

theorem Text_Render_boundary_by_byte:
  "IsSpace (fst (DecodeRuneInString [CHR 0xE3, CHR 0x80, CHR 0x80, CHR ''a'']))
   \<and> Text_Render [CHR 0xE3, CHR 0x80, CHR 0x80, CHR ''a''] = (''a'', None)
   \<and> fst (DecodeLastRuneInString [CHR ''a'', CHR 0xC3, CHR 0xA0]) = 0xE0
   \<and> IsSpace 0xE0 = False
   \<and> Text_Render [CHR ''a'', CHR 0xC3, CHR 0xA0]
       = ([CHR ''a'', CHR 0xC3, CHR 0xA0, CHR '' ''], None)"
  by code_simp

subsection \<open>C6: text never fails\<close>

text \<open>
  Claim C6: \<^verbatim>\<open>Text(s).Render\<close> never returns an error; its result is the
  HTML-escaped form of \<open>s\<close> with every maximal whitespace run collapsed to a single
  space and the ends trimmed, with at most one space put back on each side: one on
  the left exactly when the first byte, read as a code point, is whitespace, and one
  on the right exactly when the string has more than one byte and its last byte, read
  as a code point, is whitespace.  \<^verbatim>\<open>Text(" hello  world ")\<close> renders to
  \<^verbatim>\<open>" hello world "\<close>, \<^verbatim>\<open>Text("hello")\<close> to \<^verbatim>\<open>"hello"\<close>, \<^verbatim>\<open>Text("")\<close> to the
  empty string, and the five characters escaped are those of the claim.
\<close>

theorem Text_Render_never_fails:
  \<open>snd (Text_Render s) = None
   \<and> fst (Text_Render s)
       = (if s = [] then []
          else EscapeString
                 ((if IsSpace (of_char (s ! 0)) then '' '' else [])
                  @ trimSpaces (collapseRuns False (runes s))
                  @ (if 1 < length s \<and> IsSpace (of_char (s ! (length s - 1)))
                     then '' '' else [])))
   \<and> Text_Render '' hello  world '' = ('' hello world '', None)
   \<and> Text_Render ''hello'' = (''hello'', None)
   \<and> Text_Render [] = ([], None)
   \<and> EscapeString ''&<>"'' @ EscapeString [CHR 0x27] = ''&amp;&lt;&gt;&#34;&#39;''\<close>
proof -
  have 1: "snd (Text_Render s) = None"
    by (simp add: Text_Render_def Let_def)
  have 2: "fst (Text_Render s)
       = (if s = [] then []
          else EscapeString
                 ((if IsSpace (of_char (s ! 0)) then '' '' else [])
                  @ trimSpaces (collapseRuns False (runes s))
                  @ (if 1 < length s \<and> IsSpace (of_char (s ! (length s - 1)))
                     then '' '' else [])))"
  proof (cases "s = []")
    case True
    then show ?thesis by (simp add: Text_Render_def)
  next
    case False
    have "fst (Text_Render s)
        = EscapeString
            ((if IsSpace (of_char (s ! 0)) then '' '' else [])
             @ Join (FieldsFunc s IsSpace) '' ''
             @ (if 1 < length s \<and> IsSpace (of_char (s ! (length s - 1)))
                then '' '' else []))"
      using False by (simp add: Text_Render_def Let_def)
    then show ?thesis
      using False by (simp only: FieldsFunc_collapses if_False)
  qed
  have 3: "Text_Render '' hello  world '' = ('' hello world '', None)"
    by code_simp
  have 4: "Text_Render ''hello'' = (''hello'', None)"
    by code_simp
  have 5: "Text_Render [] = ([], None)"
    by (simp add: Text_Render_def)
  have 6: \<open>EscapeString ''&<>"'' @ EscapeString [CHR 0x27] = ''&amp;&lt;&gt;&#34;&#39;''\<close>
    by code_simp
  from 1 2 3 4 5 6 show ?thesis by blast
qed

end
